theory Spec2Isabelle
  imports Main "HOL-Library.AList" "HOL-Library.Sublist"
begin

section \<open>Strings and the regular expressions of generate.js\<close>

text \<open>
  A JavaScript string is modelled as a \<open>string\<close>: a list of code units below 256.
  \<open>js_split\<close> is \<^verbatim>\<open>String.prototype.split\<close> with a one-character separator (the result is
  never empty: \<^verbatim>\<open>"".split(".")\<close> is \<^verbatim>\<open>[""]\<close>), \<open>js_join\<close> is \<^verbatim>\<open>Array.prototype.join\<close>.
\<close>

fun js_split :: "char \<Rightarrow> string \<Rightarrow> string list" where
  "js_split c [] = [[]]"
| "js_split c (x # xs) =
     (if x = c then [] # js_split c xs
      else (case js_split c xs of [] \<Rightarrow> [[x]] | p # ps \<Rightarrow> (x # p) # ps))"

fun js_join :: "string \<Rightarrow> string list \<Rightarrow> string" where
  "js_join sep [] = []"
| "js_join sep [x] = x"
| "js_join sep (x # y # ys) = x @ sep @ js_join sep (y # ys)"

text \<open>\<^verbatim>\<open>join\<close> prints an element that is \<^verbatim>\<open>undefined\<close> as the empty string.\<close>

definition js_str :: "string option \<Rightarrow> string" where
  "js_str v = (case v of None \<Rightarrow> [] | Some s \<Rightarrow> s)"

text \<open>A value used as a condition: a string is truthy when it is present and not empty.\<close>

definition truthy :: "string option \<Rightarrow> bool" where
  "truthy v = (case v of None \<Rightarrow> False | Some s \<Rightarrow> s \<noteq> [])"

text \<open>
  The character classes: \<^verbatim>\<open>\s\<close> (white space, among the code units below 256) and
  \<^verbatim>\<open>.\<close> (anything but a line terminator).
\<close>

definition isSpace :: "char \<Rightarrow> bool" where
  "isSpace c = (c \<in> set [CHR 0x09, CHR 0x0A, CHR 0x0B, CHR 0x0C, CHR 0x0D, CHR 0x20, CHR 0xA0])"

definition isDot :: "char \<Rightarrow> bool" where
  "isDot c = (c \<noteq> CHR 0x0A \<and> c \<noteq> CHR 0x0D)"

text \<open>
  \<open>greedyUpTo close cs\<close> is the length of the match of \<^verbatim>\<open>(.+)close\<close> at the start of
  \<open>cs\<close>: \<^verbatim>\<open>.+\<close> is greedy, so the match ends at the last \<open>close\<close> of the first line
  of \<open>cs\<close> that has a character before it.
\<close>

definition greedyUpTo :: "char \<Rightarrow> string \<Rightarrow> nat option" where
  "greedyUpTo close cs =
     (let n = length (dropWhile (\<lambda>c. c \<noteq> close) (rev (takeWhile isDot cs)))
      in if 2 \<le> n then Some n else None)"

text \<open>\<^verbatim>\<open>m.replace(/\s*,\s*/, '|')\<close>: no \<^verbatim>\<open>g\<close> flag, so the first comma only.\<close>

definition replaceComma :: "string \<Rightarrow> string" where
  "replaceComma m =
     (if CHR '','' \<in> set m
      then rev (dropWhile isSpace (rev (takeWhile (\<lambda>c. c \<noteq> CHR '','') m))) @ ''|''
           @ dropWhile isSpace (tl (dropWhile (\<lambda>c. c \<noteq> CHR '','') m))
      else m)"

text \<open>
  \<^verbatim>\<open>type.replace(/<(.+)>/, m => m.replace(/\s*,\s*/,'|'))\<close>: the leftmost match of
  \<^verbatim>\<open><(.+)>\<close> is rewritten by \<open>replaceComma\<close>, once.
\<close>

fun replaceGeneric :: "string \<Rightarrow> string" where
  "replaceGeneric [] = []"
| "replaceGeneric (c # cs) =
     (if c = CHR ''<'' then
        (case greedyUpTo CHR ''>'' cs of
           Some n \<Rightarrow> replaceComma (c # take n cs) @ drop n cs
         | None \<Rightarrow> c # replaceGeneric cs)
      else c # replaceGeneric cs)"

text \<open>\<^verbatim>\<open>type.match(/^\{(.+)\}/)\<close>: the first group of the match, when there is one.\<close>

definition curlies :: "string \<Rightarrow> string option" where
  "curlies t =
     (case t of
        [] \<Rightarrow> None
      | c # cs \<Rightarrow>
          if c = CHR ''{'' then
            (case greedyUpTo CHR ''}'' cs of Some n \<Rightarrow> Some (take (n - 1) cs) | None \<Rightarrow> None)
          else None)"

text \<open>\<^verbatim>\<open>/^[A-Z]/.test(name)\<close>.\<close>

definition startsUpper :: "string \<Rightarrow> bool" where
  "startsUpper name =
     (case name of [] \<Rightarrow> False | c # _ \<Rightarrow> c \<in> set ''ABCDEFGHIJKLMNOPQRSTUVWXYZ'')"

text \<open>
  \<^verbatim>\<open>name.match(/^[$A-Z_][0-9A-Z_$]*$/i)\<close>: with the \<^verbatim>\<open>i\<close> flag the letters of both
  cases.
\<close>

definition identStart :: "char \<Rightarrow> bool" where
  "identStart c = (c \<in> set ''$_ABCDEFGHIJKLMNOPQRSTUVWXYZabcdefghijklmnopqrstuvwxyz'')"

definition identPart :: "char \<Rightarrow> bool" where
  "identPart c = (identStart c \<or> c \<in> set ''0123456789'')"

definition isIdentifier :: "string \<Rightarrow> bool" where
  "isIdentifier name = (case name of [] \<Rightarrow> False | c # cs \<Rightarrow> identStart c \<and> list_all identPart cs)"

text \<open>
  \<^verbatim>\<open>rawType.indexOf('...') > -1\<close> and \<^verbatim>\<open>rawType.replace('...', '')\<close>: \<open>removeFirst pat s\<close>
  is \<open>s\<close> without the first occurrence of \<open>pat\<close>, when there is one.
\<close>

fun removeFirst :: "string \<Rightarrow> string \<Rightarrow> string option" where
  "removeFirst pat [] = (if pat = [] then Some [] else None)"
| "removeFirst pat (c # cs) =
     (if prefix pat (c # cs) then Some (drop (length pat) (c # cs))
      else map_option ((#) c) (removeFirst pat cs))"

section \<open>The data model\<close>

subsection \<open>The input document\<close>

text \<open>
  The records of the parsed JSON document, with the fields generate.js reads. An
  optional field is an \<open>option\<close>; \<open>d_name\<close> and \<open>d_itemtype\<close> are \<open>[]\<close> when the record
  has none (the script only compares them and tests \<open>d_name\<close> for truth). The name of a
  class record, the class of a member record and the name of a parameter are strings:
  a document in which one of them is missing is not modelled.
\<close>

record ClassData =
  cd_name :: string
  cd_extends :: "string option"
  cd_uses :: "string list option"
  cd_extension_for :: "string list option"
  cd_access :: "string option"
  cd_description :: "string option"
  cd_deprecated :: bool
  cd_deprecationMessage :: "string option"

record ParamData =
  pd_name :: string
  pd_type :: "string option"

record ReturnData =
  rd_type :: "string option"

record ItemData =
  d_class :: string
  d_name :: string
  d_itemtype :: string
  d_type :: "string option"
  d_static :: bool
  d_description :: "string option"
  d_access :: "string option"
  d_deprecated :: bool
  d_deprecationMessage :: "string option"
  d_params :: "ParamData list option"
  d_return :: "ReturnData option"

record Docs =
  docs_classes :: "(string \<times> ClassData) list"
  docs_classitems :: "ItemData list"

subsection \<open>The objects of the script\<close>

text \<open>
  Objects live in two heaps of the program state, addressed by their index: a
  \<open>Namespace\<close> refers to its parent and children, and a \<open>Klass\<close> to its parent class and
  mixins, by index. A JavaScript \<^verbatim>\<open>Map\<close> is an association list in insertion order:
  \<open>map_of\<close> is \<^verbatim>\<open>get\<close>, \<open>AList.update\<close> is \<^verbatim>\<open>set\<close> (a key that is present keeps its
  place).
\<close>

record ClassItemParam =
  p_name :: string
  p_rest :: bool
  p_type :: string

record ClassItem =
  ci_data :: ItemData
  ci_name :: string
  ci_klass :: nat
  ci_itemType :: string
  ci_type :: string
  ci_static :: bool
  ci_description :: "string option"
  ci_private :: bool
  ci_deprecated :: bool
  ci_deprecationMessage :: "string option"
  ci_params :: "ClassItemParam list option"
  ci_returnType :: "string option"

datatype impl = ImplKlass nat | ImplString string

record Klass =
  k_data :: ClassData
  k_name :: string
  k_fullName :: string
  k_builtIn :: bool
  k_mixin :: bool
  k_type :: string
  k_private :: bool
  k_description :: "string option"
  k_deprecated :: bool
  k_deprecationMessage :: "string option"
  k_isTrueClass :: bool
  k_implements :: "impl list option"
  k_generics :: "string option"
  k_items :: "(string \<times> ClassItem) list"
  k_postProcessed :: bool
  k_isNamespace :: bool
  k_extends :: "nat option"

record Namespace =
  ns_name :: "string option"
  ns_root :: bool
  ns_parent :: "nat option"
  ns_fullName :: "string option"
  ns_namespaces :: "(string \<times> nat) list"
  ns_classes :: "(string \<times> nat) list"

text \<open>
  The program state: the two heaps (\<^verbatim>\<open>Namespace.root\<close> is namespace 0), the array
  \<^verbatim>\<open>classes\<close> of the script and the lines written by \<^verbatim>\<open>console.warn\<close>.
\<close>

record Registry =
  nss :: "Namespace list"
  klasses :: "Klass list"
  classes :: "nat list"
  warnings :: "string list"

text \<open>
  The ways a call ends without returning. \<open>Throw msg\<close> is a \<^verbatim>\<open>throw\<close> of the script, which
  throws strings. \<open>TypeError\<close> is the exception of the engine when \<^verbatim>\<open>Namespace.for\<close> calls
  \<^verbatim>\<open>name.split\<close> on a value that is not a string. \<open>Unmodelled\<close> marks the two places where
  the run goes on with a value that the model does not interpret, and where the model
  follows it no further: \<^verbatim>\<open>new RegExp\<close> on a pattern with a metacharacter (the
  constructor throws a \<^verbatim>\<open>SyntaxError\<close> or the match is not the literal one), and a type
  name for which a table yields a function that every object inherits.
\<close>

datatype error = Throw string | TypeError | Unmodelled

text \<open>
  \<^verbatim>\<open>array.map(f)\<close> for an \<^verbatim>\<open>f\<close> that may throw and changes nothing: the first exception,
  in the order of the array, ends it.
\<close>

fun sequence :: "(error + 'a) list \<Rightarrow> error + 'a list" where
  "sequence [] = Inr []"
| "sequence (x # xs) =
     (case x of
        Inl e \<Rightarrow> Inl e
      | Inr v \<Rightarrow> (case sequence xs of Inl e \<Rightarrow> Inl e | Inr vs \<Rightarrow> Inr (v # vs)))"

definition warn :: "string \<Rightarrow> Registry \<Rightarrow> Registry" where
  "warn msg s = s\<lparr>warnings := warnings s @ [msg]\<rparr>"

definition setKlass :: "nat \<Rightarrow> (Klass \<Rightarrow> Klass) \<Rightarrow> Registry \<Rightarrow> Registry" where
  "setKlass k f s = s\<lparr>klasses := (klasses s)[k := f (klasses s ! k)]\<rparr>"

definition setNamespace :: "nat \<Rightarrow> (Namespace \<Rightarrow> Namespace) \<Rightarrow> Registry \<Rightarrow> Registry" where
  "setNamespace n f s = s\<lparr>nss := (nss s)[n := f (nss s ! n)]\<rparr>"

section \<open>Namespaces\<close>

text \<open>
  The constructor. \<^verbatim>\<open>new Namespace()\<close> is \<open>Namespace_new s None None\<close>; the full name is
  \<^verbatim>\<open>[name, this.parent.name].join('.')\<close>.
\<close>

definition Namespace_new :: "Registry \<Rightarrow> string option \<Rightarrow> nat option \<Rightarrow> Namespace" where
  "Namespace_new s name parent =
     \<lparr>ns_name = (if truthy name then name else None),
      ns_root = (\<not> truthy name),
      ns_parent = parent,
      ns_fullName =
        (case parent of
           None \<Rightarrow> None
         | Some p \<Rightarrow> Some (js_join ''.'' [js_str name, js_str (ns_name (nss s ! p))])),
      ns_namespaces = [],
      ns_classes = []\<rparr>"

definition init :: Registry where
  "init = \<lparr>nss = [Namespace_new \<lparr>nss = [], klasses = [], classes = [], warnings = []\<rparr> None None],
           klasses = [], classes = [], warnings = []\<rparr>"

text \<open>
  \<^verbatim>\<open>parent.namespaces.set(name, new Namespace(name, parent))\<close>: the new namespace is put
  at the end of the heap.
\<close>

definition addNamespace :: "nat \<Rightarrow> string \<Rightarrow> Registry \<Rightarrow> Registry" where
  "addNamespace p name s =
     (setNamespace p (\<lambda>n. n\<lparr>ns_namespaces := AList.update name (length (nss s)) (ns_namespaces n)\<rparr>) s)
       \<lparr>nss := nss (setNamespace p
                  (\<lambda>n. n\<lparr>ns_namespaces := AList.update name (length (nss s)) (ns_namespaces n)\<rparr>) s)
                @ [Namespace_new s (Some name) (Some p)]\<rparr>"

text \<open>
  The body of \<^verbatim>\<open>parts.forEach\<close> in \<^verbatim>\<open>Namespace.for\<close>, with its two variables \<^verbatim>\<open>parent\<close>
  and \<^verbatim>\<open>namespace\<close>.
\<close>

fun for_parts :: "bool \<Rightarrow> string list \<Rightarrow> nat option \<Rightarrow> nat option \<Rightarrow> Registry \<Rightarrow> Registry \<times> nat option" where
  "for_parts autocreate [] parent namespace s = (s, namespace)"
| "for_parts autocreate (name # rest) parent namespace s =
     (case parent of
        None \<Rightarrow> for_parts autocreate rest parent namespace s
      | Some p \<Rightarrow>
          (let s1 =
                 (if map_of (ns_namespaces (nss s ! p)) name = None \<and> autocreate
                  then addNamespace p name s
                  else s);
               namespace' = map_of (ns_namespaces (nss s1 ! p)) name
           in for_parts autocreate rest namespace' namespace' s1))"

definition Namespace_for :: "Registry \<Rightarrow> string \<Rightarrow> bool \<Rightarrow> Registry \<times> nat option" where
  "Namespace_for s name autocreate =
     (if name = [] then (s, Some 0)
      else for_parts autocreate (js_split CHR ''.'' name) (Some 0) None s)"

section \<open>Classes\<close>

text \<open>
  The constant tables are plain objects read with a string key, \<^verbatim>\<open>TABLE[key]\<close>. Such a
  read yields the table's own entry, or else, for a key that names a property of
  \<^verbatim>\<open>Object.prototype\<close>, the inherited value: a function (an object for \<^verbatim>\<open>__proto__\<close>),
  which is truthy and is not a string.
\<close>

definition OBJECT_PROTOTYPE :: "string list" where
  "OBJECT_PROTOTYPE =
     [''constructor'', ''__defineGetter__'', ''__defineSetter__'', ''hasOwnProperty'',
      ''__lookupGetter__'', ''__lookupSetter__'', ''isPrototypeOf'', ''propertyIsEnumerable'',
      ''toString'', ''valueOf'', ''__proto__'', ''toLocaleString'']"

datatype lookup = Own string | Inherited | Absent

definition getProp :: "(string \<times> string) list \<Rightarrow> string \<Rightarrow> lookup" where
  "getProp table key =
     (case map_of table key of
        Some v \<Rightarrow> Own v
      | None \<Rightarrow> if key \<in> set OBJECT_PROTOTYPE then Inherited else Absent)"

definition NAMESPACE_MAP :: "(string \<times> string) list" where
  "NAMESPACE_MAP = [(''RSVP'', ''Ember.RSVP'')]"

definition RELATIVE_NAMES :: "(string \<times> string) list" where
  "RELATIVE_NAMES = [(''RSVP.Promise'', ''Ember.RSVP.Promise'')]"

definition BUILT_IN :: "string list" where
  "BUILT_IN = [''Function'', ''String'', ''Array'', ''Object'']"

text \<open>
  \<^verbatim>\<open>namespaceAndKlassName\<close>. The first component is
  \<^verbatim>\<open>NAMESPACE_MAP[namespaceName] || namespaceName\<close>: a string, or the inherited value
  when the namespace name is a key of \<^verbatim>\<open>Object.prototype\<close>.
\<close>

datatype nsname = Name string | NotAString

definition namespaceAndKlassName :: "string \<Rightarrow> nsname \<times> string" where
  "namespaceAndKlassName fullName =
     (let parts = js_split CHR ''.'' fullName;
          namespaceName = js_join ''.'' (butlast parts);
          namespaceName' = (case getProp NAMESPACE_MAP namespaceName of
                              Own v \<Rightarrow> Name v
                            | Inherited \<Rightarrow> NotAString
                            | Absent \<Rightarrow> Name namespaceName);
          klassName = last parts
      in (namespaceName', klassName))"

definition Klass_new :: "string \<Rightarrow> ClassData \<Rightarrow> Klass" where
  "Klass_new name data =
     \<lparr>k_data = data,
      k_name = name,
      k_fullName = cd_name data,
      k_builtIn = (cd_name data \<in> set BUILT_IN),
      k_mixin = (case cd_extension_for data of None \<Rightarrow> False | Some l \<Rightarrow> 0 < length l),
      k_type = (if cd_name data \<in> set BUILT_IN then ''interface'' else ''class''),
      k_private = (cd_access data = Some ''private''),
      k_description = cd_description data,
      k_deprecated = cd_deprecated data,
      k_deprecationMessage = cd_deprecationMessage data,
      k_isTrueClass = (truthy (cd_extends data) \<or> cd_uses data \<noteq> None),
      k_implements = (if cd_name data = ''Ember.RSVP.Promise'' then Some [ImplString ''Promise<T>''] else None),
      k_generics = (if cd_name data = ''Ember.RSVP.Promise'' then Some ''T'' else None),
      k_items = [],
      k_postProcessed = False,
      k_isNamespace = False,
      k_extends = None\<rparr>"

text \<open>
  \<^verbatim>\<open>Klass.create\<close>: the state it leaves and what it returns or throws. Given a value that
  is not a string, \<^verbatim>\<open>Namespace.for\<close> throws at \<^verbatim>\<open>name.split\<close>, before anything is changed;
  \<^verbatim>\<open>Klass.create\<close> and \<^verbatim>\<open>Klass.find\<close> are its only callers that can pass one, and the
  model has the exception there. With \<^verbatim>\<open>autocreate\<close> the namespace of a string is always
  found (\<open>Namespace_for_create\<close> below), so the \<^verbatim>\<open>undefined\<close> case, in which
  \<^verbatim>\<open>namespace.classes\<close> would throw, is never taken.
\<close>

definition Klass_create :: "Registry \<Rightarrow> string \<Rightarrow> ClassData \<Rightarrow> Registry \<times> (error + nat option)" where
  "Klass_create s fullName data =
     (case namespaceAndKlassName fullName of
        (NotAString, klassName) \<Rightarrow> (s, Inl TypeError)
      | (Name namespaceName, klassName) \<Rightarrow>
          (let (s1, namespace) = Namespace_for s namespaceName True
           in case namespace of
                None \<Rightarrow> (s1, Inl TypeError)
              | Some ns \<Rightarrow>
                  if map_of (ns_classes (nss s1 ! ns)) klassName \<noteq> None
                  then (warn (''Class already exists; name='' @ fullName) s1, Inr None)
                  else (let klass = length (klasses s1);
                            s2 = s1\<lparr>klasses := klasses s1 @ [Klass_new klassName data]\<rparr>;
                            s3 = setNamespace ns
                                   (\<lambda>n. n\<lparr>ns_classes := AList.update klassName klass (ns_classes n)\<rparr>) s2
                        in (s3, Inr (Some klass)))))"

text \<open>
  \<^verbatim>\<open>Klass.find\<close>. The \<^verbatim>\<open>TypeError\<close> of \<^verbatim>\<open>Namespace.for\<close> does not depend on
  \<^verbatim>\<open>allowMissingNamespace\<close>.
\<close>

definition Klass_find :: "Registry \<Rightarrow> string \<Rightarrow> bool \<Rightarrow> error + nat option" where
  "Klass_find s fullName allowMissingNamespace =
     (case namespaceAndKlassName fullName of
        (NotAString, klassName) \<Rightarrow> Inl TypeError
      | (Name namespaceName, klassName) \<Rightarrow>
          (case snd (Namespace_for s namespaceName False) of
             None \<Rightarrow>
               if allowMissingNamespace then Inr None
               else Inl (Throw (''No namespace found; name='' @ fullName))
           | Some ns \<Rightarrow> Inr (map_of (ns_classes (nss s ! ns)) klassName)))"

section \<open>Relative names and types\<close>

text \<open>
  The loop of \<^verbatim>\<open>relativeName\<close>: \<^verbatim>\<open>size\<close> runs from \<^verbatim>\<open>parts.length\<close> down to 1, and the
  first class found ends it. \<^verbatim>\<open>Klass.find\<close> does not throw its string when the namespace
  may be missing; its \<^verbatim>\<open>TypeError\<close> ends the loop and the call.
\<close>

fun findUnder :: "Registry \<Rightarrow> string list \<Rightarrow> nat \<Rightarrow> string \<Rightarrow> error + nat option" where
  "findUnder s parts 0 name = Inr None"
| "findUnder s parts (Suc n) name =
     (case Klass_find s (js_join ''.'' (take (Suc n) parts) @ ''.'' @ name) True of
        Inl e \<Rightarrow> Inl e
      | Inr (Some klass) \<Rightarrow> Inr (Some klass)
      | Inr None \<Rightarrow> findUnder s parts n name)"

text \<open>
  \<^verbatim>\<open>name.replace(new RegExp(`^(${partsRegexp(parts)})`), '')\<close>: the pattern for
  \<open>[p, q, r]\<close> is \<^verbatim>\<open>^(p\.(q\.(r\.)?)?)\<close>, with the segments pasted in as they are. A
  character of a segment stands for itself unless it is one of the syntax characters of
  a pattern (a segment has no dot). \<open>metaFree\<close> holds of a segment with no syntax character
  but the dollar. In such a pattern the dollar matches at the end of the input only,
  and a character has to follow it (at least the dot of the segment): a segment with a
  dollar never matches. So the segments are removed from the front of the name one
  after the other, each with its dot, as long as they are there and have no dollar
  (\<open>stripParts\<close>). A pattern with another syntax character is not interpreted
  (\<open>relative\<close>).
\<close>

definition metaFree :: "string \<Rightarrow> bool" where
  "metaFree p = list_all (\<lambda>c. c \<notin> set (CHR 0x5C # ''^*+?()[]{}|'')) p"

fun stripParts :: "string list \<Rightarrow> string \<Rightarrow> string" where
  "stripParts [] name = name"
| "stripParts (p # ps) name =
     (if CHR ''$'' \<notin> set p \<and> prefix (p @ ''.'') name
      then stripParts ps (drop (length p + 1) name)
      else name)"

definition relative :: "string list \<Rightarrow> string \<Rightarrow> error + string" where
  "relative parts name =
     (if list_all metaFree parts then Inr (stripParts parts name) else Inl Unmodelled)"

text \<open>
  \<^verbatim>\<open>relativeName\<close>: \<open>lookupName\<close> is the name after the search for the full class name
  (lines 98 to 107). \<^verbatim>\<open>RELATIVE_NAMES[name]\<close> is returned when it is truthy: the table's
  own entry, or an inherited function, which the model does not follow.
\<close>

definition lookupName :: "Registry \<Rightarrow> string \<Rightarrow> string list \<Rightarrow> error + string" where
  "lookupName s name parts =
     (if name \<notin> set BUILT_IN \<and> startsUpper name then
        (case findUnder s parts (length parts) name of
           Inl e \<Rightarrow> Inl e
         | Inr (Some klass) \<Rightarrow> Inr (k_fullName (klasses s ! klass))
         | Inr None \<Rightarrow> Inr name)
      else Inr name)"

definition relativeName :: "Registry \<Rightarrow> string \<Rightarrow> string \<Rightarrow> error + string" where
  "relativeName s name base =
     (let parts = js_split CHR ''.'' base
      in case lookupName s name parts of
           Inl e \<Rightarrow> Inl e
         | Inr name1 \<Rightarrow>
             (case getProp RELATIVE_NAMES name1 of
                Own r \<Rightarrow> Inr r
              | Inherited \<Rightarrow> Inl Unmodelled
              | Absent \<Rightarrow>
                  (case relative parts name1 of
                     Inl e \<Rightarrow> Inl e
                   | Inr r \<Rightarrow> Inr (if r \<in> set BUILT_IN then name1 else r))))"

definition RETURN_TYPES :: "(string \<times> string) list" where
  "RETURN_TYPES =
     [(''Any'', ''any''), (''*'', ''any''), (''Class'', ''any''), (''Mixed'', ''any''),
      (''Array'', ''any[]''), (''Tuple'', ''any[]''), (''Boolean'', ''boolean''),
      (''String'', ''string''), (''Number'', ''number''), (''Object'', ''{}''),
      (''Object?'', ''{}''), (''Hash'', ''{}''), (''Void'', ''void''),
      (''RSVP.Promise'', ''RSVP.Promise<any>''), (''Promise'', ''Promise<any>'')]"

text \<open>
  The first lines of \<^verbatim>\<open>convertType\<close>: the commas of a generic, then the curly braces or
  the first word.
\<close>

definition unwrapType :: "string \<Rightarrow> string" where
  "unwrapType type =
     (let t = replaceGeneric type
      in case curlies t of Some c \<Rightarrow> c | None \<Rightarrow> hd (js_split CHR '' '' t))"

lemma length_replaceComma: "length (replaceComma m) \<le> length m"
proof (cases "CHR '','' \<in> set m")
  case True
  define a where "a = takeWhile (\<lambda>c. c \<noteq> CHR '','') m"
  define b where "b = dropWhile (\<lambda>c. c \<noteq> CHR '','') m"
  have "length m = length (a @ b)" by (simp add: a_def b_def)
  then have m: "length m = length a + length b" by simp
  have "b \<noteq> []" using True by (simp add: b_def)
  then have lb: "length (tl b) + 1 = length b" by (cases b) auto
  have la: "length (rev (dropWhile isSpace (rev a))) \<le> length a"
    using length_dropWhile_le [of isSpace "rev a"] by simp
  have lc: "length (dropWhile isSpace (tl b)) \<le> length (tl b)"
    by (rule length_dropWhile_le)
  have "replaceComma m = rev (dropWhile isSpace (rev a)) @ ''|'' @ dropWhile isSpace (tl b)"
    using True by (simp add: replaceComma_def a_def b_def)
  then show ?thesis using la lb lc m by simp
next
  case False
  then show ?thesis by (simp add: replaceComma_def)
qed

lemma length_replaceGeneric: "length (replaceGeneric t) \<le> length t"
proof (induction t)
  case Nil
  then show ?case by simp
next
  case (Cons c cs)
  have "length (replaceComma (c # take n cs)) + length (drop n cs) \<le> Suc (length cs)" for n
    using length_replaceComma [of "c # take n cs"] by simp
  with Cons show ?case by (auto split: option.splits)
qed

lemma length_hd_js_split: "length (hd (js_split c t)) \<le> length t"
  by (induction t) (auto split: list.splits)

lemma length_curlies: "curlies t = Some u \<Longrightarrow> length u \<le> length t"
  by (auto simp: curlies_def split: list.splits if_splits option.splits)

lemma length_unwrapType: "length (unwrapType type) \<le> length type"
proof -
  have "length (case curlies t of Some c \<Rightarrow> c | None \<Rightarrow> hd (js_split CHR '' '' t)) \<le> length t" for t
    using length_curlies [of t] length_hd_js_split [of "CHR '' ''" t]
    by (cases "curlies t") auto
  from this [of "replaceGeneric type"] length_replaceGeneric [of type]
  show ?thesis by (simp add: unwrapType_def Let_def)
qed

lemma js_split_not_Nil: "js_split c t \<noteq> []"
  by (induction t) (auto split: list.splits)

lemma length_js_split_le: "x \<in> set (js_split c t) \<Longrightarrow> length x \<le> length t"
proof (induction t arbitrary: x)
  case Nil
  then show ?case by simp
next
  case (Cons a t)
  show ?case
  proof (cases "a = c")
    case True
    with Cons.prems have "x = [] \<or> x \<in> set (js_split c t)" by simp
    with Cons.IH show ?thesis by fastforce
  next
    case False
    obtain p ps where ps: "js_split c t = p # ps"
      using js_split_not_Nil [of c t] by (cases "js_split c t") auto
    with False Cons.prems have "x = a # p \<or> x \<in> set ps" by simp
    moreover have "length p \<le> length t" using Cons.IH [of p] ps by simp
    moreover have "x \<in> set ps \<Longrightarrow> length x \<le> length t" using Cons.IH [of x] ps by simp
    ultimately show ?thesis by fastforce
  qed
qed

lemma length_js_split_piece: "x \<in> set (js_split c t) \<Longrightarrow> c \<in> set t \<Longrightarrow> length x < length t"
proof (induction t arbitrary: x)
  case Nil
  then show ?case by simp
next
  case (Cons a t)
  show ?case
  proof (cases "a = c")
    case True
    with Cons.prems have "x = [] \<or> x \<in> set (js_split c t)" by simp
    then show ?thesis using length_js_split_le [of x c t] by fastforce
  next
    case False
    obtain p ps where ps: "js_split c t = p # ps"
      using js_split_not_Nil [of c t] by (cases "js_split c t") auto
    from False Cons.prems have ct: "c \<in> set t" by simp
    from ps False Cons.prems have "x = a # p \<or> x \<in> set ps" by simp
    moreover have "length p < length t" using Cons.IH [of p] ps ct by simp
    moreover have "x \<in> set ps \<Longrightarrow> length x < length t" using Cons.IH [of x] ps ct by simp
    ultimately show ?thesis by fastforce
  qed
qed

text \<open>
  \<^verbatim>\<open>convertType\<close>. \<^verbatim>\<open>RETURN_TYPES[type] || type\<close> is the table's own entry, the type itself,
  or an inherited function, which the model does not follow.
\<close>

function convertType :: "Registry \<Rightarrow> string \<Rightarrow> string \<Rightarrow> error + string" where
  "convertType s type relativeBase =
     (let t = unwrapType type
      in if CHR ''|'' \<in> set t
         then map_sum id (js_join ''|'')
                (sequence (map (\<lambda>u. convertType s u relativeBase) (js_split CHR ''|'' t)))
         else (case (if relativeBase \<noteq> [] then relativeName s t relativeBase else Inr t) of
                 Inl e \<Rightarrow> Inl e
               | Inr t' \<Rightarrow>
                   (case getProp RETURN_TYPES t' of
                      Own r \<Rightarrow> Inr r
                    | Inherited \<Rightarrow> Inl Unmodelled
                    | Absent \<Rightarrow> Inr t')))"
  by pat_completeness auto
termination
proof (relation "measure (\<lambda>(s, type, relativeBase). length type)")
  show "wf (measure (\<lambda>(s, type, relativeBase). length type))" by simp
next
  fix s :: Registry and type relativeBase :: string and x u
  assume "x = unwrapType type" "CHR ''|'' \<in> set x" "u \<in> set (js_split CHR ''|'' x)"
  then have "length u < length (unwrapType type)"
    using length_js_split_piece by blast
  then show "((s, u, relativeBase), (s, type, relativeBase)) \<in> measure (\<lambda>(s, type, relativeBase). length type)"
    using length_unwrapType [of type] by simp
qed

declare convertType.simps [simp del]

section \<open>Members\<close>

text \<open>
  The constructor of \<^verbatim>\<open>ClassItemParam\<close>; the class is the \<^verbatim>\<open>item.klass\<close> of the source.
\<close>

definition ClassItemParam_new :: "Registry \<Rightarrow> ParamData \<Rightarrow> nat \<Rightarrow> error + ClassItemParam" where
  "ClassItemParam_new s data klass =
     (let star = (pd_name data \<noteq> [] \<and> last (pd_name data) = CHR ''*'');
          name = (if star then butlast (pd_name data) else pd_name data);
          spread = (if truthy (pd_type data) then removeFirst ''...'' (js_str (pd_type data)) else None);
          rawType = (case spread of Some t \<Rightarrow> Some t | None \<Rightarrow> pd_type data)
      in case (if truthy rawType
               then convertType s (js_str rawType) (k_fullName (klasses s ! klass))
               else Inr ''any'') of
           Inl e \<Rightarrow> Inl e
         | Inr type \<Rightarrow>
             Inr \<lparr>p_name = (if name = ''arguments'' then ''args'' else name),
                  p_rest = (star \<or> spread \<noteq> None),
                  p_type = type\<rparr>)"

text \<open>
  The constructor of \<^verbatim>\<open>ClassItem\<close>, in the order of its statements: the type, the
  \<^verbatim>\<open>throw\<close> for a record that has \<^verbatim>\<open>params\<close> and is not a method, the parameters, the
  return type.
\<close>

definition itemTypeOf :: "ItemData \<Rightarrow> string" where
  "itemTypeOf data = (if d_itemtype data = ''event'' then ''method'' else d_itemtype data)"

definition ClassItem_new :: "Registry \<Rightarrow> ItemData \<Rightarrow> nat \<Rightarrow> error + ClassItem" where
  "ClassItem_new s data klass =
     (case (if truthy (d_type data)
            then convertType s (js_str (d_type data)) (k_fullName (klasses s ! klass))
            else Inr ''any'') of
        Inl e \<Rightarrow> Inl e
      | Inr type \<Rightarrow>
          if d_params data \<noteq> None \<and> itemTypeOf data \<noteq> ''method''
          then Inl (Throw (''Not a method but has params; name='' @ d_name data
                            @ '', type='' @ itemTypeOf data))
          else
            (case (case d_params data of
                     None \<Rightarrow> Inr None
                   | Some ps \<Rightarrow>
                       map_sum id Some (sequence (map (\<lambda>p. ClassItemParam_new s p klass) ps))) of
               Inl e \<Rightarrow> Inl e
             | Inr params \<Rightarrow>
                 (case (case d_return data of
                          Some r \<Rightarrow>
                            if truthy (rd_type r)
                            then map_sum id Some
                                   (convertType s (js_str (rd_type r)) (k_fullName (klasses s ! klass)))
                            else Inr (Some ''void'')
                        | None \<Rightarrow>
                            Inr (if d_static data \<and> d_name data = ''create''
                                 then Some (k_name (klasses s ! klass))
                                 else None)) of
                    Inl e \<Rightarrow> Inl e
                  | Inr returnType \<Rightarrow>
                      Inr \<lparr>ci_data = data,
                           ci_name = d_name data,
                           ci_klass = klass,
                           ci_itemType = itemTypeOf data,
                           ci_type = type,
                           ci_static = d_static data,
                           ci_description = d_description data,
                           ci_private = (d_access data = Some ''private''),
                           ci_deprecated = d_deprecated data,
                           ci_deprecationMessage = d_deprecationMessage data,
                           ci_params = params,
                           ci_returnType = returnType\<rparr>)))"

definition ClassItem_key :: "ClassItem \<Rightarrow> string" where
  "ClassItem_key item = (if ci_static item then ''static:'' else []) @ ci_name item"

section \<open>Resolution: postProcess\<close>

text \<open>
  The outcome of a call: \<open>None\<close> when the recursion is deeper than the fuel allows,
  \<open>Some (Inl e)\<close> when the call throws \<open>e\<close> (or, for \<open>Unmodelled\<close>, reaches a value that the
  model does not interpret), \<open>Some (Inr s)\<close> when it returns in state \<open>s\<close>.
\<close>

type_synonym outcome = "(error + Registry) option"

text \<open>
  The block of \<^verbatim>\<open>this.data.extends\<close> (lines 187 to 200); \<open>pp\<close> is the recursive call
  \<^verbatim>\<open>klass.postProcess()\<close>.
\<close>

definition extendsStep :: "(nat \<Rightarrow> Registry \<Rightarrow> outcome) \<Rightarrow> nat \<Rightarrow> Registry \<Rightarrow> outcome" where
  "extendsStep pp this s =
     (if truthy (cd_extends (k_data (klasses s ! this))) then
        (case Klass_find s (js_str (cd_extends (k_data (klasses s ! this)))) False of
           Inl e \<Rightarrow> Some (Inl e)
         | Inr None \<Rightarrow>
             Some (Inr (warn (''Can't find extended class; child='' @ k_fullName (klasses s ! this)
                              @ '' parent='' @ js_str (cd_extends (k_data (klasses s ! this)))) s))
         | Inr (Some klass) \<Rightarrow>
             (case pp klass (setKlass this (\<lambda>k. k\<lparr>k_extends := Some klass\<rparr>) s) of
                None \<Rightarrow> None
              | Some (Inl e) \<Rightarrow> Some (Inl e)
              | Some (Inr s1) \<Rightarrow>
                  (case map_of (k_items (klasses s1 ! klass)) ''static:create'' of
                     None \<Rightarrow> Some (Inr s1)
                   | Some parentCreate \<Rightarrow>
                       (case ClassItem_new s1 (ci_data parentCreate) this of
                          Inl e \<Rightarrow> Some (Inl e)
                        | Inr item \<Rightarrow>
                            Some (Inr (setKlass this
                              (\<lambda>k. k\<lparr>k_items := AList.update ''static:create'' item (k_items k)\<rparr>) s1))))))
      else Some (Inr s))"

text \<open>
  The block of \<^verbatim>\<open>this.data.uses\<close> (lines 202 to 207): \<^verbatim>\<open>map\<close> calls \<^verbatim>\<open>Klass.find\<close> on
  each name in turn, and the first call that throws ends it; \<^verbatim>\<open>filter\<close> keeps the
  classes that were found.
\<close>

fun findAll :: "Registry \<Rightarrow> string list \<Rightarrow> error + nat option list" where
  "findAll s [] = Inr []"
| "findAll s (i # rest) =
     (case Klass_find s i False of
        Inl e \<Rightarrow> Inl e
      | Inr r \<Rightarrow> (case findAll s rest of Inl e \<Rightarrow> Inl e | Inr rs \<Rightarrow> Inr (r # rs)))"

definition usesStep :: "nat \<Rightarrow> Registry \<Rightarrow> error + Registry" where
  "usesStep this s =
     (case cd_uses (k_data (klasses s ! this)) of
        None \<Rightarrow> Inr s
      | Some uses \<Rightarrow>
          (case findAll s uses of
             Inl e \<Rightarrow> Inl e
           | Inr found \<Rightarrow>
               (let impls = List.map_filter id found
                in if 0 < length impls
                   then Inr (setKlass this (\<lambda>k. k\<lparr>k_implements := Some (map ImplKlass impls)\<rparr>) s)
                   else Inr s)))"

text \<open>
  \<^verbatim>\<open>k.items.forEach\<close> (lines 216 to 228), over the entries of the mixin: a member the
  class lacks is built anew from the mixin member's data, a private member the class
  has is made public.
\<close>

fun copyItems :: "nat \<Rightarrow> (string \<times> ClassItem) list \<Rightarrow> Registry \<Rightarrow> error + Registry" where
  "copyItems this [] s = Inr s"
| "copyItems this ((name, i) # rest) s =
     (if ci_private i then copyItems this rest s
      else
        (case map_of (k_items (klasses s ! this)) name of
           Some existing \<Rightarrow>
             if ci_private existing
             then copyItems this rest
                    (setKlass this
                       (\<lambda>k. k\<lparr>k_items := AList.update name (existing\<lparr>ci_private := False\<rparr>) (k_items k)\<rparr>)
                       (warn (''Setting private to false for '' @ k_fullName (klasses s ! this) @ ''#''
                              @ name @ '' since it's required for implementation'') s))
             else copyItems this rest s
         | None \<Rightarrow>
             (case ClassItem_new s (ci_data i) this of
                Inl e \<Rightarrow> Inl e
              | Inr item \<Rightarrow>
                  copyItems this rest
                    (setKlass this (\<lambda>k. k\<lparr>k_items := AList.update name item (k_items k)\<rparr>) s))))"

text \<open>\<^verbatim>\<open>this.implements.forEach\<close> (lines 210 to 230).\<close>

fun forEachImpl :: "(nat \<Rightarrow> Registry \<Rightarrow> outcome) \<Rightarrow> nat \<Rightarrow> impl list \<Rightarrow> Registry \<Rightarrow> outcome" where
  "forEachImpl pp this [] s = Some (Inr s)"
| "forEachImpl pp this (ImplString str # rest) s = forEachImpl pp this rest s"
| "forEachImpl pp this (ImplKlass k # rest) s =
     (case pp k s of
        None \<Rightarrow> None
      | Some (Inl e) \<Rightarrow> Some (Inl e)
      | Some (Inr s1) \<Rightarrow>
          (case copyItems this (k_items (klasses s1 ! k)) s1 of
             Inl e \<Rightarrow> Some (Inl e)
           | Inr s2 \<Rightarrow> forEachImpl pp this rest s2))"

text \<open>
  The first lines of \<^verbatim>\<open>postProcess\<close> after the guard (lines 182 to 185): the flag is
  set, then \<^verbatim>\<open>isNamespace\<close>.
\<close>

definition markProcessed :: "nat \<Rightarrow> Registry \<Rightarrow> Registry" where
  "markProcessed this s =
     (let s1 = setKlass this (\<lambda>k. k\<lparr>k_postProcessed := True\<rparr>) s;
          namespace = snd (Namespace_for s1 (k_fullName (klasses s1 ! this)) False)
      in setKlass this (\<lambda>k. k\<lparr>k_isNamespace := (namespace \<noteq> None)\<rparr>) s1)"

text \<open>
  \<^verbatim>\<open>postProcess\<close>. The first argument bounds the depth of the recursion; the flag is set
  before any recursive call.
\<close>

primrec postProcess :: "nat \<Rightarrow> nat \<Rightarrow> Registry \<Rightarrow> outcome" where
  "postProcess 0 = (\<lambda>this s. None)"
| "postProcess (Suc fuel) = (\<lambda>this s.
     if k_postProcessed (klasses s ! this) then Some (Inr s)
     else
       (case extendsStep (postProcess fuel) this (markProcessed this s) of
          None \<Rightarrow> None
        | Some (Inl e) \<Rightarrow> Some (Inl e)
        | Some (Inr s3) \<Rightarrow>
            (case usesStep this s3 of
               Inl e \<Rightarrow> Some (Inl e)
             | Inr s4 \<Rightarrow>
                 (case k_implements (klasses s4 ! this) of
                    None \<Rightarrow> Some (Inr s4)
                  | Some impls \<Rightarrow> forEachImpl (postProcess fuel) this impls s4))))"

section \<open>The script\<close>

definition IGNORE :: "string list" where
  "IGNORE = [''Ember.Templates'']"

definition ignoreItem :: "string \<Rightarrow> bool" where
  "ignoreItem name = list_ex (\<lambda>i. name = i \<or> take (length i + 1) name = i @ ''.'') IGNORE"

text \<open>
  \<^verbatim>\<open>let klass = Klass.create(name, data); if (klass) { classes.push(klass); }\<close>, as
  both loops that register classes have it.
\<close>

definition registerClass :: "string \<Rightarrow> ClassData \<Rightarrow> Registry \<Rightarrow> error + Registry" where
  "registerClass name data s =
     (case Klass_create s name data of
        (s1, Inl e) \<Rightarrow> Inl e
      | (s1, Inr (Some klass)) \<Rightarrow> Inr (s1\<lparr>classes := classes s1 @ [klass]\<rparr>)
      | (s1, Inr None) \<Rightarrow> Inr s1)"

text \<open>
  The loop over \<^verbatim>\<open>docs.classes\<close> (lines 497 to 505); the entries of \<open>docs_classes\<close> are in
  the order in which \<^verbatim>\<open>for (let name in docs.classes)\<close> visits them.
\<close>

definition loadClass :: "string \<times> ClassData \<Rightarrow> Registry \<Rightarrow> error + Registry" where
  "loadClass entry s =
     (if ignoreItem (fst entry) then Inr s else registerClass (fst entry) (snd entry) s)"

fun loadClasses :: "(string \<times> ClassData) list \<Rightarrow> Registry \<Rightarrow> error + Registry" where
  "loadClasses [] s = Inr s"
| "loadClasses (entry # rest) s =
     (case loadClass entry s of Inl e \<Rightarrow> Inl e | Inr s1 \<Rightarrow> loadClasses rest s1)"

text \<open>The body of \<^verbatim>\<open>docs.classitems.forEach\<close> (lines 507 to 524).\<close>

definition attachItem :: "ItemData \<Rightarrow> Registry \<Rightarrow> error + Registry" where
  "attachItem data s =
     (if ignoreItem (d_class data) then Inr s
      else
        (case Klass_find s (d_class data) False of
           Inl e \<Rightarrow> Inl e
         | Inr None \<Rightarrow> Inr (warn (''Klass not found for '' @ d_class data) s)
         | Inr (Some klass) \<Rightarrow>
             if d_name data \<noteq> [] \<and> d_itemtype data \<in> set [''method'', ''property'', ''event'']
             then
               (case ClassItem_new s data klass of
                  Inl e \<Rightarrow> Inl e
                | Inr item \<Rightarrow>
                    Inr (setKlass klass
                           (\<lambda>k. k\<lparr>k_items := AList.update (ClassItem_key item) item (k_items k)\<rparr>)
                           (if map_of (k_items (klasses s ! klass)) (ClassItem_key item) \<noteq> None
                            then warn (''Duplicate item for klass; klass='' @ k_fullName (klasses s ! klass)
                                       @ '', item='' @ ClassItem_key item) s
                            else s)))
             else Inr s))"

fun attachItems :: "ItemData list \<Rightarrow> Registry \<Rightarrow> error + Registry" where
  "attachItems [] s = Inr s"
| "attachItems (data # rest) s =
     (case attachItem data s of Inl e \<Rightarrow> Inl e | Inr s1 \<Rightarrow> attachItems rest s1)"

definition ADDITIONAL_CLASSES :: "string list" where
  "ADDITIONAL_CLASSES = [''DOMElement'', ''Registry'', ''Transition'', ''Handlebars.SafeString'']"

definition additionalClass :: "string \<Rightarrow> Registry \<Rightarrow> error + Registry" where
  "additionalClass klassName s =
     registerClass klassName
       \<lparr>cd_name = klassName, cd_extends = None, cd_uses = None, cd_extension_for = None,
        cd_access = None, cd_description = None, cd_deprecated = False,
        cd_deprecationMessage = None\<rparr> s"

fun additionalClasses :: "string list \<Rightarrow> Registry \<Rightarrow> error + Registry" where
  "additionalClasses [] s = Inr s"
| "additionalClasses (klassName # rest) s =
     (case additionalClass klassName s of Inl e \<Rightarrow> Inl e | Inr s1 \<Rightarrow> additionalClasses rest s1)"

text \<open>\<^verbatim>\<open>classes.forEach(k => k.postProcess())\<close> (line 543).\<close>

fun postProcessAll :: "nat \<Rightarrow> nat list \<Rightarrow> Registry \<Rightarrow> outcome" where
  "postProcessAll fuel [] s = Some (Inr s)"
| "postProcessAll fuel (k # ks) s =
     (case postProcess fuel k s of
        None \<Rightarrow> None
      | Some (Inl e) \<Rightarrow> Some (Inl e)
      | Some (Inr s1) \<Rightarrow> postProcessAll fuel ks s1)"

text \<open>
  The script: registration (lines 495 to 540), then resolution. An exception that is
  not caught ends the run.
\<close>

definition loadDocs :: "Docs \<Rightarrow> error + Registry" where
  "loadDocs docs =
     (case loadClasses (docs_classes docs) init of
        Inl e \<Rightarrow> Inl e
      | Inr s0 \<Rightarrow>
          (case attachItems (docs_classitems docs) s0 of
             Inl e \<Rightarrow> Inl e
           | Inr s1 \<Rightarrow> additionalClasses ADDITIONAL_CLASSES s1))"

definition resolveDocs :: "nat \<Rightarrow> Docs \<Rightarrow> outcome" where
  "resolveDocs fuel docs =
     (case loadDocs docs of
        Inl e \<Rightarrow> Some (Inl e)
      | Inr s \<Rightarrow> postProcessAll fuel (classes s) s)"

section \<open>Declarations\<close>

definition ClassItemParam_toString :: "ClassItemParam \<Rightarrow> string" where
  "ClassItemParam_toString p =
     (if p_rest p then
        (let type = hd (js_split CHR ''|'' (p_type p))
         in (''...'' @ p_name p) @ '': '' @ ((if type = ''{}'' then ''any'' else type) @ ''[]''))
      else p_name p @ '': '' @ p_type p)"

text \<open>\<^verbatim>\<open>params.indexOf(rest)\<close>, for a \<^verbatim>\<open>rest\<close> that is in the array.\<close>

definition indexOf :: "'a list \<Rightarrow> 'a \<Rightarrow> nat" where
  "indexOf xs x = length (takeWhile (\<lambda>y. y \<noteq> x) xs)"

text \<open>The variable \<^verbatim>\<open>params\<close> of \<^verbatim>\<open>buildDeclaration\<close> (lines 400 to 409).\<close>

definition declParams :: "ClassItem \<Rightarrow> bool \<Rightarrow> ClassItemParam list" where
  "declParams item skipRest =
     (let params = (case ci_params item of None \<Rightarrow> [] | Some ps \<Rightarrow> ps)
      in if skipRest then filter (\<lambda>p. \<not> p_rest p) params
         else (case find p_rest params of
                 Some rest \<Rightarrow> take (indexOf params rest + 1) params
               | None \<Rightarrow> params))"

text \<open>
  \<^verbatim>\<open>buildDeclaration\<close>: \<open>declName\<close> is the string \<^verbatim>\<open>str\<close> after line 397 (the qualifier and
  the name, quoted when it is not an identifier), \<open>declReturn\<close> the return type that
  follows the parameters of a method.
\<close>

definition declName :: "Registry \<Rightarrow> ClassItem \<Rightarrow> string" where
  "declName s item =
     (if k_isNamespace (klasses s ! ci_klass item) \<and> \<not> k_isTrueClass (klasses s ! ci_klass item)
      then (if ci_itemType item = ''method'' then ''function '' else ''var '')
      else if ci_static item then ''static '' else [])
     @ (if isIdentifier (ci_name item) then ci_name item
        else [CHR 0x27] @ ci_name item @ [CHR 0x27])"

definition declReturn :: "ClassItem \<Rightarrow> string" where
  "declReturn item =
     (if truthy (ci_returnType item) then '': '' @ js_str (ci_returnType item) else [])"

definition buildDeclaration :: "Registry \<Rightarrow> ClassItem \<Rightarrow> bool \<Rightarrow> string" where
  "buildDeclaration s item skipRest =
     (if ci_itemType item = ''method''
      then declName s item @ ''(''
           @ js_join '', '' (map ClassItemParam_toString (declParams item skipRest)) @ '')''
           @ declReturn item
      else declName s item @ '': '' @ ci_type item)"

text \<open>
  The getter \<^verbatim>\<open>declarations\<close>: the second call passes \<^verbatim>\<open>{ skipRest: true }\<close>, an object,
  which is truthy.
\<close>

definition declarations :: "Registry \<Rightarrow> ClassItem \<Rightarrow> string list" where
  "declarations s item =
     buildDeclaration s item False #
     (case ci_params item of
        None \<Rightarrow> []
      | Some params \<Rightarrow>
          (case find p_rest params of
             Some rest \<Rightarrow>
               if indexOf params rest \<noteq> length params - 1
               then [buildDeclaration s item True]
               else []
           | None \<Rightarrow> []))"

section \<open>Well-formed states\<close>

text \<open>
  A reference of the script always points to an object. In the model a state is well
  formed when every index it holds is inside its heap, a member belongs to the class
  whose map holds it, and a member built from a record with \<^verbatim>\<open>params\<close> is a method (the
  constructor of \<^verbatim>\<open>ClassItem\<close> has seen to it).
\<close>

definition data_ok :: "ItemData \<Rightarrow> bool" where
  "data_ok data = (d_params data = None \<or> itemTypeOf data = ''method'')"

definition impl_ok :: "Registry \<Rightarrow> impl \<Rightarrow> bool" where
  "impl_ok s i = (case i of ImplKlass c \<Rightarrow> c < length (klasses s) | ImplString str \<Rightarrow> True)"

definition wellformed :: "Registry \<Rightarrow> bool" where
  "wellformed s =
     (0 < length (nss s)
      \<and> list_all (\<lambda>n. list_all (\<lambda>e. snd e < length (nss s)) (ns_namespaces n)
                      \<and> list_all (\<lambda>e. snd e < length (klasses s)) (ns_classes n)) (nss s)
      \<and> list_all (\<lambda>c. c < length (klasses s)) (classes s)
      \<and> list_all (\<lambda>k. case k_implements k of None \<Rightarrow> True | Some impls \<Rightarrow> list_all (impl_ok s) impls)
           (klasses s)
      \<and> list_all (\<lambda>p. list_all (\<lambda>e. ci_klass (snd e) = fst p \<and> data_ok (ci_data (snd e)))
                        (k_items (snd p)))
           (enumerate 0 (klasses s)))"

text \<open>
  The states in which resolution has nothing to report: every \<^verbatim>\<open>extends\<close> name finds
  a class and every \<^verbatim>\<open>uses\<close> name finds its namespace (\<open>names_ok\<close>), the constructor of
  \<^verbatim>\<open>ClassItem\<close> returns for every member record and every class of the state (\<open>builds\<close>),
  and either no class has a mixin (\<open>no_mixins\<close>) or no member is private
  (\<open>all_public\<close>). Nothing is asked of the shape of the \<^verbatim>\<open>extends\<close> and \<^verbatim>\<open>uses\<close> edges:
  they may form cycles.
\<close>

definition names_ok :: "Registry \<Rightarrow> bool" where
  "names_ok s =
     list_all
       (\<lambda>k. (truthy (cd_extends (k_data k)) \<longrightarrow>
               (case Klass_find s (js_str (cd_extends (k_data k))) False of
                  Inr (Some c) \<Rightarrow> True
                | _ \<Rightarrow> False))
            \<and> (case cd_uses (k_data k) of
                 None \<Rightarrow> True
               | Some uses \<Rightarrow>
                   list_all (\<lambda>m. case Klass_find s m False of Inl e \<Rightarrow> False | Inr r \<Rightarrow> True) uses))
       (klasses s)"

definition no_mixins :: "Registry \<Rightarrow> bool" where
  "no_mixins s = list_all (\<lambda>k. cd_uses (k_data k) = None \<and> k_implements k = None) (klasses s)"

definition all_public :: "Registry \<Rightarrow> bool" where
  "all_public s =
     list_all
       (\<lambda>k. list_all (\<lambda>e. \<not> ci_private (snd e) \<and> d_access (ci_data (snd e)) \<noteq> Some ''private'')
               (k_items k))
       (klasses s)"

definition buildable :: "Registry \<Rightarrow> ItemData \<Rightarrow> bool" where
  "buildable s data =
     list_all (\<lambda>c. case ClassItem_new s data c of Inr item \<Rightarrow> True | Inl e \<Rightarrow> False)
       [0..<length (klasses s)]"

definition builds :: "Registry \<Rightarrow> bool" where
  "builds s = list_all (\<lambda>k. list_all (\<lambda>e. buildable s (ci_data (snd e))) (k_items k)) (klasses s)"

definition calm :: "Registry \<Rightarrow> bool" where
  "calm s = (wellformed s \<and> names_ok s \<and> builds s \<and> (no_mixins s \<or> all_public s))"


text \<open>The classes whose \<^verbatim>\<open>postProcess\<close> has not run.\<close>

definition unprocessed :: "Registry \<Rightarrow> nat" where
  "unprocessed s = length (filter (\<lambda>k. \<not> k_postProcessed k) (klasses s))"

text \<open>
  What a call of \<^verbatim>\<open>postProcess\<close> may change (\<open>resolves\<close>): the heaps keep their size, a
  class keeps its record and names and a flag that is set, and a class whose flag is
  set is left as it is. Inside the body of the call on \<open>this\<close> the class \<open>this\<close> itself
  is changed after its flag is set (\<open>resolvesIn\<close>).
\<close>

definition keeps :: "Klass \<Rightarrow> Klass \<Rightarrow> bool" where
  "keeps k k' =
     (k_data k' = k_data k \<and> k_name k' = k_name k \<and> k_fullName k' = k_fullName k
      \<and> (k_postProcessed k \<longrightarrow> k_postProcessed k'))"

definition resolvesIn :: "nat \<Rightarrow> Registry \<Rightarrow> Registry \<Rightarrow> bool" where
  "resolvesIn this s s' =
     (nss s' = nss s \<and> classes s' = classes s \<and> length (klasses s') = length (klasses s)
      \<and> (\<forall>j<length (klasses s).
            keeps (klasses s ! j) (klasses s' ! j)
            \<and> (j \<noteq> this \<longrightarrow> k_postProcessed (klasses s ! j) \<longrightarrow> klasses s' ! j = klasses s ! j))
      \<and> (wellformed s \<longrightarrow> wellformed s'))"

definition resolves :: "Registry \<Rightarrow> Registry \<Rightarrow> bool" where
  "resolves s s' =
     (nss s' = nss s \<and> classes s' = classes s \<and> length (klasses s') = length (klasses s)
      \<and> (\<forall>j<length (klasses s).
            keeps (klasses s ! j) (klasses s' ! j)
            \<and> (k_postProcessed (klasses s ! j) \<longrightarrow> klasses s' ! j = klasses s ! j))
      \<and> (wellformed s \<longrightarrow> wellformed s'))"

text \<open>What a call in a calm state returns: a state, with no new warning, that is calm again.\<close>

definition quiet :: "Registry \<Rightarrow> error + Registry \<Rightarrow> bool" where
  "quiet s r = (\<exists>s'. r = Inr s' \<and> warnings s' = warnings s \<and> calm s'
                    \<and> (all_public s \<longrightarrow> all_public s'))"


section \<open>Example documents\<close>

definition classRecord :: "string \<Rightarrow> string option \<Rightarrow> string list option \<Rightarrow> ClassData" where
  "classRecord name ext uses =
     \<lparr>cd_name = name, cd_extends = ext, cd_uses = uses, cd_extension_for = None,
      cd_access = None, cd_description = None, cd_deprecated = False,
      cd_deprecationMessage = None\<rparr>"

definition itemRecord :: "string \<Rightarrow> string \<Rightarrow> string \<Rightarrow> bool \<Rightarrow> ItemData" where
  "itemRecord cls name itemtype static =
     \<lparr>d_class = cls, d_name = name, d_itemtype = itemtype, d_type = None, d_static = static,
      d_description = None, d_access = None, d_deprecated = False,
      d_deprecationMessage = None, d_params = None, d_return = None\<rparr>"

text \<open>The declarations of the member \<open>key\<close> of class \<open>k\<close> after a run.\<close>

definition declarationsOf :: "outcome \<Rightarrow> nat \<Rightarrow> string \<Rightarrow> string list option" where
  "declarationsOf r k key =
     (case r of
        Some (Inr s) \<Rightarrow> map_option (declarations s) (map_of (k_items (klasses s ! k)) key)
      | _ \<Rightarrow> None)"

text \<open>A method \<^verbatim>\<open>foo(a, b*, c)\<close> of a class \<^verbatim>\<open>Foo\<close>.\<close>

definition restDocs :: Docs where
  "restDocs =
     \<lparr>docs_classes = [(''Foo'', classRecord ''Foo'' None None)],
      docs_classitems =
        [(itemRecord ''Foo'' ''foo'' ''method'' False)
           \<lparr>d_params := Some [\<lparr>pd_name = ''a'', pd_type = None\<rparr>,
                              \<lparr>pd_name = ''b*'', pd_type = Some ''String|Number''\<rparr>,
                              \<lparr>pd_name = ''c'', pd_type = None\<rparr>]\<rparr>]\<rparr>"

definition restState :: Registry where
  "restState = fst (Klass_create init ''Foo'' (classRecord ''Foo'' None None))"

definition restItem :: ClassItem where
  "restItem =
     \<lparr>ci_data = itemRecord ''Foo'' ''foo'' ''method'' False, ci_name = ''foo'', ci_klass = 0,
      ci_itemType = ''method'', ci_type = ''any'', ci_static = False, ci_description = None,
      ci_private = False, ci_deprecated = False, ci_deprecationMessage = None,
      ci_params = Some [\<lparr>p_name = ''a'', p_rest = False, p_type = ''any''\<rparr>,
                        \<lparr>p_name = ''b'', p_rest = True, p_type = ''string|number''\<rparr>,
                        \<lparr>p_name = ''c'', p_rest = False, p_type = ''any''\<rparr>],
      ci_returnType = None\<rparr>"

text \<open>The state after the registration of a document that loads without an exception.\<close>

definition loadedState :: "Docs \<Rightarrow> Registry" where
  "loadedState docs = (case loadDocs docs of Inr s \<Rightarrow> s | Inl e \<Rightarrow> init)"

text \<open>Two classes that extend each other.\<close>

definition extendsCycleDocs :: Docs where
  "extendsCycleDocs =
     \<lparr>docs_classes = [(''A'', classRecord ''A'' (Some ''B'') None),
                      (''B'', classRecord ''B'' (Some ''A'') None)],
      docs_classitems = []\<rparr>"


text \<open>A class \<^verbatim>\<open>C\<close> that extends a class \<^verbatim>\<open>P\<close> with a method and a static \<^verbatim>\<open>create\<close>.\<close>

definition inheritDocs :: Docs where
  "inheritDocs =
     \<lparr>docs_classes = [(''P'', classRecord ''P'' None None),
                      (''C'', classRecord ''C'' (Some ''P'') None)],
      docs_classitems = [itemRecord ''P'' ''foo'' ''method'' False,
                         itemRecord ''P'' ''create'' ''method'' True]\<rparr>"

text \<open>A class \<^verbatim>\<open>Foo\<close> with a property \<^verbatim>\<open>foo\<close> that is documented twice.\<close>

definition firstFoo :: ItemData where
  "firstFoo = (itemRecord ''Foo'' ''foo'' ''property'' False)\<lparr>d_type := Some ''String''\<rparr>"

definition secondFoo :: ItemData where
  "secondFoo = (itemRecord ''Foo'' ''foo'' ''property'' False)\<lparr>d_type := Some ''Number''\<rparr>"

definition duplicateDocs :: Docs where
  "duplicateDocs =
     \<lparr>docs_classes = [(''Foo'', classRecord ''Foo'' None None)],
      docs_classitems = [firstFoo, secondFoo]\<rparr>"

definition firstFooDocs :: Docs where
  "firstFooDocs =
     \<lparr>docs_classes = [(''Foo'', classRecord ''Foo'' None None)],
      docs_classitems = [firstFoo]\<rparr>"





section \<open>Invariants of resolution\<close>

subsection \<open>States and their updates\<close>

lemma setKlass_simps [simp]:
  "nss (setKlass this f s) = nss s"
  "classes (setKlass this f s) = classes s"
  "warnings (setKlass this f s) = warnings s"
  "length (klasses (setKlass this f s)) = length (klasses s)"
  by (simp_all add: setKlass_def)

lemma nth_setKlass:
  "j < length (klasses s) \<Longrightarrow>
   klasses (setKlass this f s) ! j = (if j = this then f (klasses s ! j) else klasses s ! j)"
  by (simp add: setKlass_def nth_list_update)

lemma warn_simps [simp]:
  "nss (warn m s) = nss s"
  "classes (warn m s) = classes s"
  "klasses (warn m s) = klasses s"
  "warnings (warn m s) = warnings s @ [m]"
  by (simp_all add: warn_def)

lemma wellformed_iff:
  "wellformed s \<longleftrightarrow>
     nss s \<noteq> []
     \<and> (\<forall>n\<in>set (nss s). (\<forall>e\<in>set (ns_namespaces n). snd e < length (nss s))
                         \<and> (\<forall>e\<in>set (ns_classes n). snd e < length (klasses s)))
     \<and> (\<forall>c\<in>set (classes s). c < length (klasses s))
     \<and> (\<forall>j<length (klasses s). \<forall>impls. k_implements (klasses s ! j) = Some impls
            \<longrightarrow> (\<forall>i\<in>set impls. impl_ok s i))
     \<and> (\<forall>j<length (klasses s). \<forall>e\<in>set (k_items (klasses s ! j)).
            ci_klass (snd e) = j \<and> data_ok (ci_data (snd e)))"
proof -
  have a: "list_all (\<lambda>k. case k_implements k of None \<Rightarrow> True | Some impls \<Rightarrow> list_all (impl_ok s) impls)
             (klasses s)
           \<longleftrightarrow> (\<forall>j<length (klasses s). \<forall>impls. k_implements (klasses s ! j) = Some impls
                  \<longrightarrow> (\<forall>i\<in>set impls. impl_ok s i))"
    unfolding list_all_length [of _ "klasses s"]
    by (auto simp: list_all_iff split: option.splits)
  have b: "list_all (\<lambda>p. list_all (\<lambda>e. ci_klass (snd e) = fst p \<and> data_ok (ci_data (snd e)))
                        (k_items (snd p)))
             (enumerate 0 (klasses s))
           \<longleftrightarrow> (\<forall>j<length (klasses s). \<forall>e\<in>set (k_items (klasses s ! j)).
                  ci_klass (snd e) = j \<and> data_ok (ci_data (snd e)))"
    unfolding list_all_length [of _ "enumerate 0 (klasses s)"]
    by (simp add: list_all_iff nth_enumerate_eq)
  show ?thesis
    unfolding wellformed_def a b by (simp add: list_all_iff)
qed

lemma impl_ok_length: "length (klasses s') = length (klasses s) \<Longrightarrow> impl_ok s' i = impl_ok s i"
  by (simp add: impl_ok_def split: impl.splits)


lemma set_AList_update: "e \<in> set (AList.update k v al) \<Longrightarrow> e = (k, v) \<or> e \<in> set al"
  by (induction al) (auto split: if_splits)

lemma wellformed_warn [simp]: "wellformed (warn m s) = wellformed s"
proof -
  have "impl_ok (warn m s) i = impl_ok s i" for i
    by (rule impl_ok_length) simp
  then show ?thesis by (simp add: wellformed_iff)
qed

lemma wellformed_setKlass:
  assumes "wellformed s"
    and "\<And>impls i. this < length (klasses s) \<Longrightarrow> k_implements (f (klasses s ! this)) = Some impls
           \<Longrightarrow> i \<in> set impls \<Longrightarrow> impl_ok s i"
    and "\<And>e. this < length (klasses s) \<Longrightarrow> e \<in> set (k_items (f (klasses s ! this)))
           \<Longrightarrow> ci_klass (snd e) = this \<and> data_ok (ci_data (snd e))"
  shows "wellformed (setKlass this f s)"
proof -
  have io: "impl_ok (setKlass this f s) i = impl_ok s i" for i
    by (rule impl_ok_length) simp
  show ?thesis
    using assms
    unfolding wellformed_iff [of s] wellformed_iff [of "setKlass this f s"]
    by (simp add: io nth_setKlass)
qed

lemma resolves_refl: "resolves s s"
  by (simp add: resolves_def keeps_def)

lemma resolvesIn_refl: "resolvesIn this s s"
  by (simp add: resolvesIn_def keeps_def)

lemma resolves_resolvesIn: "resolves s s' \<Longrightarrow> resolvesIn this s s'"
  by (simp add: resolves_def resolvesIn_def)

lemma resolvesIn_resolves:
  "resolvesIn this s s' \<Longrightarrow> \<not> k_postProcessed (klasses s ! this) \<Longrightarrow> resolves s s'"
  by (auto simp: resolves_def resolvesIn_def)

lemma keeps_trans: "keeps a b \<Longrightarrow> keeps b c \<Longrightarrow> keeps a c"
  by (simp add: keeps_def)

lemma resolvesIn_trans:
  assumes "resolvesIn this s s'" and "resolvesIn this s' s''"
  shows "resolvesIn this s s''"
proof -
  have len: "length (klasses s') = length (klasses s)"
    using assms(1) by (simp add: resolvesIn_def)
  have "keeps (klasses s ! j) (klasses s'' ! j)
        \<and> (j \<noteq> this \<longrightarrow> k_postProcessed (klasses s ! j) \<longrightarrow> klasses s'' ! j = klasses s ! j)"
    if j: "j < length (klasses s)" for j
  proof -
    from assms(1) j have 1: "keeps (klasses s ! j) (klasses s' ! j)"
      and 2: "j \<noteq> this \<longrightarrow> k_postProcessed (klasses s ! j) \<longrightarrow> klasses s' ! j = klasses s ! j"
      by (simp_all add: resolvesIn_def)
    from assms(2) j len have 3: "keeps (klasses s' ! j) (klasses s'' ! j)"
      and 4: "j \<noteq> this \<longrightarrow> k_postProcessed (klasses s' ! j) \<longrightarrow> klasses s'' ! j = klasses s' ! j"
      by (simp_all add: resolvesIn_def)
    from 1 2 3 4 show ?thesis by (auto simp: keeps_def)
  qed
  then show ?thesis
    using assms len by (simp add: resolvesIn_def)
qed

lemma resolvesIn_warn: "resolvesIn this s (warn m s)"
  by (simp add: resolvesIn_def keeps_def)

lemma resolvesIn_setKlass:
  assumes "\<And>k. keeps k (f k)"
    and "wellformed s \<Longrightarrow> wellformed (setKlass this f s)"
  shows "resolvesIn this s (setKlass this f s)"
  using assms by (simp add: resolvesIn_def nth_setKlass keeps_def)

lemma ClassItem_new_Inr:
  "ClassItem_new s d k = Inr item \<Longrightarrow>
     ci_klass item = k \<and> ci_data item = d \<and> data_ok d
     \<and> ci_private item = (d_access d = Some ''private'')"
  unfolding ClassItem_new_def data_ok_def
  by (auto split: sum.splits if_splits)

lemma wellformed_items:
  "wellformed s \<Longrightarrow> j < length (klasses s) \<Longrightarrow> e \<in> set (k_items (klasses s ! j))
   \<Longrightarrow> ci_klass (snd e) = j \<and> data_ok (ci_data (snd e))"
  unfolding wellformed_iff by blast

lemma wellformed_impls:
  "wellformed s \<Longrightarrow> j < length (klasses s) \<Longrightarrow> k_implements (klasses s ! j) = Some impls
   \<Longrightarrow> i \<in> set impls \<Longrightarrow> impl_ok s i"
  unfolding wellformed_iff by blast

lemma resolvesIn_setItem:
  assumes "wellformed s \<Longrightarrow> this < length (klasses s) \<Longrightarrow> ci_klass item = this \<and> data_ok (ci_data item)"
  shows "resolvesIn this s
           (setKlass this (\<lambda>k. k\<lparr>k_items := AList.update name item (k_items k)\<rparr>) s)"
proof (rule resolvesIn_setKlass)
  show "keeps k (k\<lparr>k_items := AList.update name item (k_items k)\<rparr>)" for k
    by (simp add: keeps_def)
next
  assume wf: "wellformed s"
  show "wellformed (setKlass this (\<lambda>k. k\<lparr>k_items := AList.update name item (k_items k)\<rparr>) s)"
  proof (rule wellformed_setKlass [OF wf])
    fix impls i
    assume "this < length (klasses s)"
      "k_implements ((klasses s ! this)\<lparr>k_items := AList.update name item (k_items (klasses s ! this))\<rparr>) = Some impls"
      "i \<in> set impls"
    then show "impl_ok s i" using wellformed_impls [OF wf] by simp
  next
    fix e
    assume t: "this < length (klasses s)"
      and "e \<in> set (k_items ((klasses s ! this)\<lparr>k_items := AList.update name item (k_items (klasses s ! this))\<rparr>))"
    then have "e = (name, item) \<or> e \<in> set (k_items (klasses s ! this))"
      using set_AList_update [of e name item] by simp
    then show "ci_klass (snd e) = this \<and> data_ok (ci_data (snd e))"
      using assms [OF wf t] wellformed_items [OF wf t, of e] by auto
  qed
qed

lemma resolvesIn_setField:
  assumes "\<And>k. keeps k (f k)" "\<And>k. k_items (f k) = k_items k" "\<And>k. k_implements (f k) = k_implements k"
  shows "resolvesIn this s (setKlass this f s)"
proof (rule resolvesIn_setKlass [OF assms(1)])
  assume wf: "wellformed s"
  show "wellformed (setKlass this f s)"
  proof (rule wellformed_setKlass [OF wf])
    fix impls i
    assume "this < length (klasses s)" "k_implements (f (klasses s ! this)) = Some impls" "i \<in> set impls"
    then show "impl_ok s i" using wellformed_impls [OF wf, of this impls i] assms(3) by simp
  next
    fix e
    assume "this < length (klasses s)" "e \<in> set (k_items (f (klasses s ! this)))"
    then show "ci_klass (snd e) = this \<and> data_ok (ci_data (snd e))"
      using wellformed_items [OF wf, of this e] assms(2) by simp
  qed
qed

subsection \<open>Lookups read the namespaces only\<close>

lemma for_parts_lookup: "fst (for_parts False parts p n s) = s"
  by (induction parts arbitrary: p n) (auto simp: Let_def split: option.splits)

lemma for_parts_nss:
  "nss s' = nss s \<Longrightarrow> snd (for_parts False parts p n s') = snd (for_parts False parts p n s)"
  by (induction parts arbitrary: p n) (auto simp: Let_def split: option.splits)

lemma Namespace_for_nss:
  "nss s' = nss s \<Longrightarrow> snd (Namespace_for s' name False) = snd (Namespace_for s name False)"
  by (simp add: Namespace_for_def for_parts_nss [of s' s])

lemma Klass_find_nss: "nss s' = nss s \<Longrightarrow> Klass_find s' name b = Klass_find s name b"
  by (simp add: Klass_find_def Namespace_for_nss [of s' s] split: prod.splits nsname.splits option.splits)

lemma Klass_find_cases:
  obtains (notAString) klassName where "namespaceAndKlassName name = (NotAString, klassName)"
      "Klass_find s name b = Inl TypeError"
    | (missing) n klassName where "namespaceAndKlassName name = (Name n, klassName)"
      "snd (Namespace_for s n False) = None"
      "Klass_find s name b = (if b then Inr None else Inl (Throw (''No namespace found; name='' @ name)))"
    | (found) n klassName ns where "namespaceAndKlassName name = (Name n, klassName)"
      "snd (Namespace_for s n False) = Some ns"
      "Klass_find s name b = Inr (map_of (ns_classes (nss s ! ns)) klassName)"
proof (cases "namespaceAndKlassName name")
  case (Pair nsn klassName)
  show ?thesis
  proof (cases nsn)
    case NotAString
    with Pair show ?thesis by (intro notAString [of klassName]) (simp_all add: Klass_find_def)
  next
    case (Name n)
    show ?thesis
    proof (cases "snd (Namespace_for s n False)")
      case None
      with Pair Name show ?thesis by (intro missing [of n klassName]) (simp_all add: Klass_find_def)
    next
      case (Some ns)
      with Pair Name show ?thesis by (intro found [of n klassName ns]) (simp_all add: Klass_find_def)
    qed
  qed
qed


lemma wellformed_ns:
  assumes "wellformed s" "n < length (nss s)" "map_of (ns_namespaces (nss s ! n)) name = Some i"
  shows "i < length (nss s)"
proof -
  have "nss s ! n \<in> set (nss s)" using assms(2) by simp
  moreover have "(name, i) \<in> set (ns_namespaces (nss s ! n))" using assms(3) by (rule map_of_SomeD)
  ultimately have "snd (name, i) < length (nss s)"
    using assms(1) unfolding wellformed_iff by blast
  then show ?thesis by simp
qed

lemma wellformed_ns_classes:
  assumes "wellformed s" "n < length (nss s)" "map_of (ns_classes (nss s ! n)) name = Some c"
  shows "c < length (klasses s)"
proof -
  have "nss s ! n \<in> set (nss s)" using assms(2) by simp
  moreover have "(name, c) \<in> set (ns_classes (nss s ! n))" using assms(3) by (rule map_of_SomeD)
  ultimately have "snd (name, c) < length (klasses s)"
    using assms(1) unfolding wellformed_iff by blast
  then show ?thesis by simp
qed

lemma for_parts_valid:
  assumes "wellformed s"
  shows "\<forall>x. p = Some x \<longrightarrow> x < length (nss s) \<Longrightarrow> \<forall>x. n = Some x \<longrightarrow> x < length (nss s)
         \<Longrightarrow> snd (for_parts False parts p n s) = Some r \<Longrightarrow> r < length (nss s)"
proof (induction parts arbitrary: p n)
  case Nil
  then show ?case by simp
next
  case (Cons name rest)
  show ?case
  proof (cases p)
    case None
    with Cons.prems(3) have "snd (for_parts False rest None n s) = Some r" by simp
    from Cons.IH [OF _ Cons.prems(2) this] show ?thesis by simp
  next
    case (Some x)
    let ?n = "map_of (ns_namespaces (nss s ! x)) name"
    have v: "\<forall>y. ?n = Some y \<longrightarrow> y < length (nss s)"
      using wellformed_ns [OF assms, of x name] Cons.prems(1) Some by simp
    from Cons.prems(3) Some have "snd (for_parts False rest ?n ?n s) = Some r" by (simp add: Let_def)
    from Cons.IH [OF v v this] show ?thesis .
  qed
qed

lemma Klass_find_valid:
  assumes "wellformed s" and "Klass_find s name b = Inr (Some c)"
  shows "c < length (klasses s)"
proof -
  have "\<exists>n klassName ns. snd (Namespace_for s n False) = Some ns
           \<and> map_of (ns_classes (nss s ! ns)) klassName = Some c"
  proof (rule Klass_find_cases [of name s b])
    fix klassName assume "Klass_find s name b = Inl TypeError"
    with assms(2) show ?thesis by simp
  next
    fix n klassName
    assume "Klass_find s name b = (if b then Inr None else Inl (Throw (''No namespace found; name='' @ name)))"
    with assms(2) show ?thesis by (simp split: if_splits)
  next
    fix n klassName ns
    assume "snd (Namespace_for s n False) = Some ns"
      "Klass_find s name b = Inr (map_of (ns_classes (nss s ! ns)) klassName)"
    with assms(2) show ?thesis by auto
  qed
  then obtain n klassName ns where ns: "snd (Namespace_for s n False) = Some ns"
    and c: "map_of (ns_classes (nss s ! ns)) klassName = Some c"
    by blast
  have "0 < length (nss s)" using assms(1) by (simp add: wellformed_iff)
  have "ns < length (nss s)"
  proof (cases "n = []")
    case True
    with ns \<open>0 < length (nss s)\<close> show ?thesis by (simp add: Namespace_for_def)
  next
    case False
    with ns have "snd (for_parts False (js_split CHR ''.'' n) (Some 0) None s) = Some ns"
      by (simp add: Namespace_for_def)
    then show ?thesis
      using for_parts_valid [OF assms(1), of "Some 0" None] \<open>0 < length (nss s)\<close> by simp
  qed
  then show ?thesis using wellformed_ns_classes [OF assms(1) _ c] by simp
qed

lemma set_map_filter_id: "c \<in> set (List.map_filter id found) \<longleftrightarrow> Some c \<in> set found"
  by (induction found) (auto simp: List.map_filter_simps split: option.splits)

lemma findAll_valid:
  "wellformed s \<Longrightarrow> findAll s names = Inr found \<Longrightarrow> c \<in> set (List.map_filter id found)
   \<Longrightarrow> c < length (klasses s)"
  unfolding set_map_filter_id
proof (induction names arbitrary: found)
  case Nil
  then show ?case by simp
next
  case (Cons i rest)
  then obtain r rs where r: "Klass_find s i False = Inr r" and rs: "findAll s rest = Inr rs"
    and f: "found = r # rs"
    by (auto split: sum.splits)
  from Cons.prems(3) f have "r = Some c \<or> Some c \<in> set rs" by auto
  then show ?case
  proof
    assume "r = Some c"
    with r show ?thesis using Klass_find_valid [OF Cons.prems(1), of i False c] by simp
  next
    assume "Some c \<in> set rs"
    then show ?thesis by (rule Cons.IH [OF Cons.prems(1) rs])
  qed
qed

text \<open>
  The constructors read the state through the namespaces and the names of the classes:
  they give the same in two states that agree on these.
\<close>

lemma findUnder_nss: "nss s' = nss s \<Longrightarrow> findUnder s' parts n name = findUnder s parts n name"
  by (induction n) (simp_all add: Klass_find_nss [of s' s] split: sum.splits option.splits)

lemma findUnder_valid:
  "wellformed s \<Longrightarrow> findUnder s parts n name = Inr (Some c) \<Longrightarrow> c < length (klasses s)"
proof (induction n)
  case 0
  then show ?case by simp
next
  case (Suc n)
  show ?case
  proof (cases "Klass_find s (js_join ''.'' (take (Suc n) parts) @ ''.'' @ name) True")
    case (Inl e)
    with Suc.prems show ?thesis by simp
  next
    case (Inr r)
    show ?thesis
    proof (cases r)
      case None
      with Suc Inr show ?thesis by simp
    next
      case (Some k)
      with Suc.prems Inr have "k = c" by simp
      with Inr Some show ?thesis using Klass_find_valid [OF Suc.prems(1)] by blast
    qed
  qed
qed

lemma lookupName_same:
  assumes "nss s' = nss s" and "wellformed s"
    and "\<And>j. j < length (klasses s) \<Longrightarrow> k_fullName (klasses s' ! j) = k_fullName (klasses s ! j)"
  shows "lookupName s' name parts = lookupName s name parts"
proof (cases "findUnder s parts (length parts) name")
  case (Inl e)
  then show ?thesis by (simp add: lookupName_def findUnder_nss [OF assms(1)])
next
  case (Inr r)
  show ?thesis
  proof (cases r)
    case None
    with Inr show ?thesis by (simp add: lookupName_def findUnder_nss [OF assms(1)])
  next
    case (Some c)
    with Inr have "c < length (klasses s)" using findUnder_valid [OF assms(2)] by blast
    with Inr Some assms(3) show ?thesis by (simp add: lookupName_def findUnder_nss [OF assms(1)])
  qed
qed

lemma relativeName_same:
  assumes "nss s' = nss s" and "wellformed s"
    and "\<And>j. j < length (klasses s) \<Longrightarrow> k_fullName (klasses s' ! j) = k_fullName (klasses s ! j)"
  shows "relativeName s' name base = relativeName s name base"
  by (simp add: relativeName_def lookupName_same [OF assms])

lemma convertType_same:
  assumes "nss s' = nss s" and "wellformed s"
    and "\<And>j. j < length (klasses s) \<Longrightarrow> k_fullName (klasses s' ! j) = k_fullName (klasses s ! j)"
  shows "convertType s' type base = convertType s type base"
proof (induction "length type" arbitrary: type rule: less_induct)
  case less
  show ?case
  proof (cases "CHR ''|'' \<in> set (unwrapType type)")
    case False
    then show ?thesis
      by (simp add: convertType.simps [of _ type] Let_def relativeName_same [OF assms])
  next
    case True
    have "convertType s' u base = convertType s u base"
      if "u \<in> set (js_split CHR ''|'' (unwrapType type))" for u
    proof (rule less)
      have "length u < length (unwrapType type)"
        using that True by (rule length_js_split_piece)
      then show "length u < length type" using length_unwrapType [of type] by simp
    qed
    then have me: "map (\<lambda>u. convertType s' u base) (js_split CHR ''|'' (unwrapType type))
               = map (\<lambda>u. convertType s u base) (js_split CHR ''|'' (unwrapType type))"
      by simp
    show ?thesis
      using True by (simp add: convertType.simps [of _ type] Let_def me)
  qed
qed

lemma ClassItem_new_same:
  assumes "nss s' = nss s" and "wellformed s"
    and "\<And>j. j < length (klasses s) \<Longrightarrow> k_fullName (klasses s' ! j) = k_fullName (klasses s ! j)"
    and "\<And>j. j < length (klasses s) \<Longrightarrow> k_name (klasses s' ! j) = k_name (klasses s ! j)"
    and "c < length (klasses s)"
  shows "ClassItem_new s' d c = ClassItem_new s d c"
proof -
  have ct: "convertType s' t b = convertType s t b" for t b
    by (rule convertType_same [OF assms(1-3)])
  have fn: "k_fullName (klasses s' ! c) = k_fullName (klasses s ! c)"
    and nm: "k_name (klasses s' ! c) = k_name (klasses s ! c)"
    using assms(3,4) [OF assms(5)] by simp_all
  have pm: "ClassItemParam_new s' p c = ClassItemParam_new s p c" for p
    unfolding ClassItemParam_new_def ct fn ..
  show ?thesis
    unfolding ClassItem_new_def ct fn nm pm ..
qed

lemma ClassItem_new_resolvesIn:
  assumes "resolvesIn this s s'" and "wellformed s" and "c < length (klasses s)"
  shows "ClassItem_new s' d c = ClassItem_new s d c"
  using assms(1) by (intro ClassItem_new_same assms(2,3)) (simp_all add: resolvesIn_def keeps_def)

lemma buildable_iff:
  "buildable s d \<longleftrightarrow> (\<forall>c<length (klasses s). \<exists>item. ClassItem_new s d c = Inr item)"
proof -
  have "(case x of Inr item \<Rightarrow> True | Inl e \<Rightarrow> False) \<longleftrightarrow> (\<exists>item. x = Inr item)"
    for x :: "error + ClassItem"
    by (cases x) simp_all
  then show ?thesis by (auto simp: buildable_def list_all_iff)
qed

lemma builds_iff:
  "builds s \<longleftrightarrow> (\<forall>j<length (klasses s). \<forall>e\<in>set (k_items (klasses s ! j)). buildable s (ci_data (snd e)))"
  unfolding builds_def list_all_length [of _ "klasses s"] by (simp add: list_all_iff)

lemma buildable_resolvesIn:
  assumes "resolvesIn this s s'" and "wellformed s"
  shows "buildable s' d = buildable s d"
proof -
  have "length (klasses s') = length (klasses s)" using assms(1) by (simp add: resolvesIn_def)
  then show ?thesis
    unfolding buildable_iff using ClassItem_new_resolvesIn [OF assms] by simp
qed

subsection \<open>The steps of postProcess\<close>

lemma copyItems_resolvesIn: "copyItems this items s = Inr s' \<Longrightarrow> resolvesIn this s s'"
proof (induction items arbitrary: s)
  case Nil
  then show ?case by (simp add: resolvesIn_refl)
next
  case (Cons e rest)
  obtain name i where e: "e = (name, i)" by (cases e)
  show ?case
  proof (cases "ci_private i")
    case True
    with Cons e show ?thesis by simp
  next
    case False
    show ?thesis
    proof (cases "map_of (k_items (klasses s ! this)) name")
      case None
      with Cons.prems e False obtain item where
        n: "ClassItem_new s (ci_data i) this = Inr item"
        and c: "copyItems this rest
                 (setKlass this (\<lambda>k. k\<lparr>k_items := AList.update name item (k_items k)\<rparr>) s) = Inr s'"
        by (auto split: sum.splits)
      have "resolvesIn this s (setKlass this (\<lambda>k. k\<lparr>k_items := AList.update name item (k_items k)\<rparr>) s)"
        by (rule resolvesIn_setItem) (use ClassItem_new_Inr [OF n] in simp)
      with Cons.IH [OF c] show ?thesis by (rule resolvesIn_trans [rotated])
    next
      case (Some existing)
      show ?thesis
      proof (cases "ci_private existing")
        case True
        let ?w = "warn (''Setting private to false for '' @ k_fullName (klasses s ! this) @ ''#''
                              @ name @ '' since it's required for implementation'') s"
        let ?s = "setKlass this
                    (\<lambda>k. k\<lparr>k_items := AList.update name (existing\<lparr>ci_private := False\<rparr>) (k_items k)\<rparr>) ?w"
        from Cons.prems e False Some True have c: "copyItems this rest ?s = Inr s'" by simp
        have "(name, existing) \<in> set (k_items (klasses s ! this))"
          using Some by (rule map_of_SomeD)
        then have "resolvesIn this ?w ?s"
          using wellformed_items [of ?w this "(name, existing)"]
          by (intro resolvesIn_setItem) simp
        then have "resolvesIn this s ?s"
          using resolvesIn_warn resolvesIn_trans by blast
        with Cons.IH [OF c] show ?thesis by (rule resolvesIn_trans [rotated])
      next
        case f: False
        with Cons e False Some show ?thesis by simp
      qed
    qed
  qed
qed

lemma usesStep_resolvesIn: "usesStep this s = Inr s' \<Longrightarrow> resolvesIn this s s'"
proof (cases "cd_uses (k_data (klasses s ! this))")
  case None
  then show "usesStep this s = Inr s' \<Longrightarrow> resolvesIn this s s'"
    by (simp add: usesStep_def resolvesIn_refl)
next
  case (Some uses)
  assume u: "usesStep this s = Inr s'"
  then obtain found where f: "findAll s uses = Inr found"
    using Some by (auto simp: usesStep_def split: sum.splits)
  let ?impls = "List.map_filter id found"
  show "resolvesIn this s s'"
  proof (cases "?impls = []")
    case True
    with u Some f show ?thesis by (simp add: usesStep_def resolvesIn_refl)
  next
    case False
    with u Some f have s': "s' = setKlass this (\<lambda>k. k\<lparr>k_implements := Some (map ImplKlass ?impls)\<rparr>) s"
      by (simp add: usesStep_def)
    show ?thesis
      unfolding s'
    proof (rule resolvesIn_setKlass)
      show "keeps k (k\<lparr>k_implements := Some (map ImplKlass ?impls)\<rparr>)" for k
        by (simp add: keeps_def)
    next
      assume wf: "wellformed s"
      show "wellformed (setKlass this (\<lambda>k. k\<lparr>k_implements := Some (map ImplKlass ?impls)\<rparr>) s)"
      proof (rule wellformed_setKlass [OF wf])
        fix impls i
        assume "k_implements ((klasses s ! this)\<lparr>k_implements := Some (map ImplKlass ?impls)\<rparr>) = Some impls"
          and "i \<in> set impls"
        then obtain c where "i = ImplKlass c" "c \<in> set ?impls" by auto
        then show "impl_ok s i" using findAll_valid [OF wf f] by (simp add: impl_ok_def)
      next
        fix e
        assume "this < length (klasses s)"
          and "e \<in> set (k_items ((klasses s ! this)\<lparr>k_implements := Some (map ImplKlass ?impls)\<rparr>))"
        then show "ci_klass (snd e) = this \<and> data_ok (ci_data (snd e))"
          using wellformed_items [OF wf, of this e] by simp
      qed
    qed
  qed
qed

lemma extendsStep_resolvesIn:
  assumes pp: "\<And>k s s'. pp k s = Some (Inr s') \<Longrightarrow> resolves s s'"
    and step: "extendsStep pp this s = Some (Inr s')"
  shows "resolvesIn this s s'"
proof (cases "truthy (cd_extends (k_data (klasses s ! this)))")
  case False
  with step show ?thesis by (simp add: extendsStep_def resolvesIn_refl)
next
  case True
  let ?e = "js_str (cd_extends (k_data (klasses s ! this)))"
  show ?thesis
  proof (cases "Klass_find s ?e False")
    case (Inl e)
    with step True show ?thesis by (simp add: extendsStep_def)
  next
    case (Inr r)
    show ?thesis
    proof (cases r)
      case None
      with step True Inr show ?thesis by (auto simp: extendsStep_def resolvesIn_warn)
    next
      case (Some klass)
      let ?s0 = "setKlass this (\<lambda>k. k\<lparr>k_extends := Some klass\<rparr>) s"
      have r0: "resolvesIn this s ?s0"
        by (rule resolvesIn_setField) (simp_all add: keeps_def)
      from step True Inr Some obtain s1 where s1: "pp klass ?s0 = Some (Inr s1)"
        by (auto simp: extendsStep_def split: option.splits sum.splits)
      have r1: "resolvesIn this ?s0 s1"
        using pp [OF s1] by (rule resolves_resolvesIn)
      have r01: "resolvesIn this s s1" using r0 r1 by (rule resolvesIn_trans)
      show ?thesis
      proof (cases "map_of (k_items (klasses s1 ! klass)) ''static:create''")
        case None
        with step True Inr Some s1 have "s' = s1" by (simp add: extendsStep_def)
        with r01 show ?thesis by simp
      next
        case c: (Some parentCreate)
        with step True Inr Some s1 obtain item where
          n: "ClassItem_new s1 (ci_data parentCreate) this = Inr item"
          and s': "s' = setKlass this (\<lambda>k. k\<lparr>k_items := AList.update ''static:create'' item (k_items k)\<rparr>) s1"
          by (auto simp: extendsStep_def split: sum.splits)
        have "resolvesIn this s1 s'"
          unfolding s' by (rule resolvesIn_setItem) (use ClassItem_new_Inr [OF n] in simp)
        with r01 show ?thesis by (rule resolvesIn_trans)
      qed
    qed
  qed
qed

lemma forEachImpl_resolvesIn:
  assumes pp: "\<And>k s s'. pp k s = Some (Inr s') \<Longrightarrow> resolves s s'"
  shows "forEachImpl pp this impls s = Some (Inr s') \<Longrightarrow> resolvesIn this s s'"
proof (induction impls arbitrary: s)
  case Nil
  then show ?case by (simp add: resolvesIn_refl)
next
  case (Cons i rest)
  show ?case
  proof (cases i)
    case (ImplString str)
    with Cons show ?thesis by simp
  next
    case (ImplKlass k)
    with Cons.prems obtain s1 s2 where s1: "pp k s = Some (Inr s1)"
      and s2: "copyItems this (k_items (klasses s1 ! k)) s1 = Inr s2"
      and r: "forEachImpl pp this rest s2 = Some (Inr s')"
      by (auto split: option.splits sum.splits)
    have "resolvesIn this s s1" using pp [OF s1] by (rule resolves_resolvesIn)
    moreover have "resolvesIn this s1 s2" using s2 by (rule copyItems_resolvesIn)
    moreover have "resolvesIn this s2 s'" using r by (rule Cons.IH)
    ultimately show ?thesis using resolvesIn_trans by blast
  qed
qed

lemma resolvesIn_markProcessed: "resolvesIn this s (markProcessed this s)"
proof -
  let ?s1 = "setKlass this (\<lambda>k. k\<lparr>k_postProcessed := True\<rparr>) s"
  have "resolvesIn this s ?s1"
    by (rule resolvesIn_setField) (simp_all add: keeps_def)
  moreover have "resolvesIn this ?s1 (setKlass this (\<lambda>k. k\<lparr>k_isNamespace := b\<rparr>) ?s1)" for b
    by (rule resolvesIn_setField) (simp_all add: keeps_def)
  ultimately show ?thesis
    unfolding markProcessed_def Let_def by (rule resolvesIn_trans)
qed

text \<open>The stages of a call that runs the body and returns.\<close>

lemma postProcess_stages:
  assumes "\<not> k_postProcessed (klasses s ! this)"
    and "postProcess (Suc fuel) this s = Some (Inr s')"
  obtains s3 s4 where
    "extendsStep (postProcess fuel) this (markProcessed this s) = Some (Inr s3)"
    "usesStep this s3 = Inr s4"
    "(case k_implements (klasses s4 ! this) of
        None \<Rightarrow> Some (Inr s4)
      | Some impls \<Rightarrow> forEachImpl (postProcess fuel) this impls s4) = Some (Inr s')"
  using assms by (auto split: option.splits sum.splits)

lemma implStep_resolvesIn:
  assumes pp: "\<And>k s s'. pp k s = Some (Inr s') \<Longrightarrow> resolves s s'"
    and "(case k_implements (klasses s4 ! this) of
            None \<Rightarrow> Some (Inr s4)
          | Some impls \<Rightarrow> forEachImpl pp this impls s4) = Some (Inr s')"
  shows "resolvesIn this s4 s'"
proof (cases "k_implements (klasses s4 ! this)")
  case None
  with assms(2) show ?thesis by (simp add: resolvesIn_refl)
next
  case (Some impls)
  with assms(2) have "forEachImpl pp this impls s4 = Some (Inr s')" by simp
  with pp show ?thesis by (rule forEachImpl_resolvesIn)
qed

lemma postProcess_resolves: "postProcess fuel this s = Some (Inr s') \<Longrightarrow> resolves s s'"
proof (induction fuel arbitrary: this s s')
  case 0
  then show ?case by simp
next
  case (Suc fuel)
  show ?case
  proof (cases "k_postProcessed (klasses s ! this)")
    case True
    with Suc.prems show ?thesis by (simp add: resolves_refl)
  next
    case False
    from False Suc.prems obtain s3 s4 where
      s3: "extendsStep (postProcess fuel) this (markProcessed this s) = Some (Inr s3)"
      and s4: "usesStep this s3 = Inr s4"
      and s': "(case k_implements (klasses s4 ! this) of
                  None \<Rightarrow> Some (Inr s4)
                | Some impls \<Rightarrow> forEachImpl (postProcess fuel) this impls s4) = Some (Inr s')"
      by (rule postProcess_stages)
    have r3: "resolvesIn this (markProcessed this s) s3"
      using Suc.IH s3 by (rule extendsStep_resolvesIn)
    have r4: "resolvesIn this s3 s4" using s4 by (rule usesStep_resolvesIn)
    have r5: "resolvesIn this s4 s'" using Suc.IH s' by (rule implStep_resolvesIn)
    have "resolvesIn this s s'"
      using resolvesIn_markProcessed r3 r4 r5 resolvesIn_trans by blast
    then show ?thesis using False by (rule resolvesIn_resolves)
  qed
qed

subsection \<open>The flag and the count of unresolved classes\<close>

lemma resolvesIn_flag:
  "resolvesIn this s s' \<Longrightarrow> j < length (klasses s) \<Longrightarrow> k_postProcessed (klasses s ! j)
   \<Longrightarrow> k_postProcessed (klasses s' ! j)"
  by (simp add: resolvesIn_def keeps_def)

lemma resolvesIn_wellformed: "resolvesIn this s s' \<Longrightarrow> wellformed s \<Longrightarrow> wellformed s'"
  by (simp add: resolvesIn_def)

lemma resolvesIn_length: "resolvesIn this s s' \<Longrightarrow> length (klasses s') = length (klasses s)"
  by (simp add: resolvesIn_def)

lemma length_filter_mono:
  "length xs = length ys \<Longrightarrow> \<forall>j<length xs. P (ys ! j) \<longrightarrow> P (xs ! j)
   \<Longrightarrow> length (filter P ys) \<le> length (filter P xs)"
proof (induction xs ys rule: list_induct2)
  case Nil
  then show ?case by simp
next
  case (Cons x xs y ys)
  from Cons.prems have "\<forall>j<length xs. P (ys ! j) \<longrightarrow> P (xs ! j)" by fastforce
  with Cons.IH have "length (filter P ys) \<le> length (filter P xs)" by simp
  moreover from Cons.prems have "P y \<longrightarrow> P x" by fastforce
  ultimately show ?case by simp
qed

lemma resolvesIn_unprocessed: "resolvesIn this s s' \<Longrightarrow> unprocessed s' \<le> unprocessed s"
  unfolding unprocessed_def
  by (rule length_filter_mono) (auto simp: resolvesIn_def keeps_def)

lemma klasses_markProcessed:
  assumes "this < length (klasses s)"
  obtains b where "klasses (markProcessed this s)
        = (klasses s)[this := (klasses s ! this)\<lparr>k_postProcessed := True, k_isNamespace := b\<rparr>]"
  using assms by (simp add: markProcessed_def Let_def setKlass_def)

lemma flag_markProcessed:
  "this < length (klasses s) \<Longrightarrow> k_postProcessed (klasses (markProcessed this s) ! this)"
  by (rule klasses_markProcessed [of this s]) simp_all

lemma unprocessed_markProcessed:
  assumes "this < length (klasses s)" and "\<not> k_postProcessed (klasses s ! this)"
  shows "Suc (unprocessed (markProcessed this s)) = unprocessed s"
proof -
  let ?P = "\<lambda>k. \<not> k_postProcessed k"
  let ?xs = "klasses s"
  obtain b where m: "klasses (markProcessed this s)
        = ?xs[this := (?xs ! this)\<lparr>k_postProcessed := True, k_isNamespace := b\<rparr>]"
    using assms(1) by (rule klasses_markProcessed)
  have a: "?xs = take this ?xs @ ?xs ! this # drop (Suc this) ?xs"
    using assms(1) by (rule id_take_nth_drop)
  have b: "?xs[this := (?xs ! this)\<lparr>k_postProcessed := True, k_isNamespace := b\<rparr>]
           = take this ?xs @ (?xs ! this)\<lparr>k_postProcessed := True, k_isNamespace := b\<rparr>
             # drop (Suc this) ?xs"
    using assms(1) by (rule upd_conv_take_nth_drop)
  have "length (filter ?P ?xs)
        = length (filter ?P (take this ?xs)) + 1 + length (filter ?P (drop (Suc this) ?xs))"
    using assms(2) by (subst a) simp
  moreover have "length (filter ?P (?xs[this := (?xs ! this)\<lparr>k_postProcessed := True, k_isNamespace := b\<rparr>]))
        = length (filter ?P (take this ?xs)) + length (filter ?P (drop (Suc this) ?xs))"
    by (subst b) simp
  ultimately show ?thesis by (simp add: unprocessed_def m)
qed

lemma postProcess_body:
  assumes "\<not> k_postProcessed (klasses s ! this)"
    and "postProcess (Suc fuel) this s = Some (Inr s')"
  shows "resolvesIn this (markProcessed this s) s'"
proof -
  from assms obtain s3 s4 where
    s3: "extendsStep (postProcess fuel) this (markProcessed this s) = Some (Inr s3)"
    and s4: "usesStep this s3 = Inr s4"
    and s': "(case k_implements (klasses s4 ! this) of
                None \<Rightarrow> Some (Inr s4)
              | Some impls \<Rightarrow> forEachImpl (postProcess fuel) this impls s4) = Some (Inr s')"
    by (rule postProcess_stages)
  have r3: "resolvesIn this (markProcessed this s) s3"
    using postProcess_resolves s3 by (rule extendsStep_resolvesIn)
  have r4: "resolvesIn this s3 s4" using s4 by (rule usesStep_resolvesIn)
  have r5: "resolvesIn this s4 s'" using postProcess_resolves s' by (rule implStep_resolvesIn)
  show ?thesis using r3 r4 r5 resolvesIn_trans by blast
qed

lemma postProcess_flag:
  assumes "this < length (klasses s)" and "postProcess fuel this s = Some (Inr s')"
  shows "k_postProcessed (klasses s' ! this)"
proof (cases fuel)
  case 0
  with assms show ?thesis by simp
next
  case (Suc n)
  show ?thesis
  proof (cases "k_postProcessed (klasses s ! this)")
    case True
    with assms Suc show ?thesis by simp
  next
    case False
    have r: "resolvesIn this (markProcessed this s) s'"
      using False assms(2) unfolding Suc by (rule postProcess_body)
    have l: "this < length (klasses (markProcessed this s))"
      using resolvesIn_length [OF resolvesIn_markProcessed, of this s] assms(1) by simp
    show ?thesis
      using resolvesIn_flag [OF r l flag_markProcessed [OF assms(1)]] .
  qed
qed

subsection \<open>Termination\<close>

lemma extendsStep_terminates:
  assumes pp: "\<And>k s. wellformed s \<Longrightarrow> k < length (klasses s) \<Longrightarrow> unprocessed s < m \<Longrightarrow> pp k s \<noteq> None"
    and wf: "wellformed s" and m: "unprocessed s < m"
  shows "extendsStep pp this s \<noteq> None"
proof (cases "truthy (cd_extends (k_data (klasses s ! this)))")
  case False
  then show ?thesis by (simp add: extendsStep_def)
next
  case True
  let ?e = "js_str (cd_extends (k_data (klasses s ! this)))"
  show ?thesis
  proof (cases "Klass_find s ?e False")
    case (Inl e)
    with True show ?thesis by (simp add: extendsStep_def)
  next
    case (Inr r)
    show ?thesis
    proof (cases r)
      case None
      with True Inr show ?thesis by (simp add: extendsStep_def)
    next
      case (Some klass)
      let ?s0 = "setKlass this (\<lambda>k. k\<lparr>k_extends := Some klass\<rparr>) s"
      have r0: "resolvesIn this s ?s0"
        by (rule resolvesIn_setField) (simp_all add: keeps_def)
      have "klass < length (klasses s)" using wf Inr Some Klass_find_valid by blast
      then have "pp klass ?s0 \<noteq> None"
        using pp [of ?s0 klass] resolvesIn_wellformed [OF r0 wf] resolvesIn_unprocessed [OF r0] m
        by simp
      with True Inr Some show ?thesis
        by (auto simp: extendsStep_def split: option.splits sum.splits)
    qed
  qed
qed

lemma forEachImpl_terminates:
  assumes pp: "\<And>k s. wellformed s \<Longrightarrow> k < length (klasses s) \<Longrightarrow> unprocessed s < m \<Longrightarrow> pp k s \<noteq> None"
    and ppr: "\<And>k s s'. pp k s = Some (Inr s') \<Longrightarrow> resolves s s'"
  shows "wellformed s \<Longrightarrow> unprocessed s < m \<Longrightarrow> \<forall>i\<in>set impls. impl_ok s i
         \<Longrightarrow> forEachImpl pp this impls s \<noteq> None"
proof (induction impls arbitrary: s)
  case Nil
  then show ?case by simp
next
  case (Cons i rest)
  show ?case
  proof (cases i)
    case (ImplString str)
    with Cons show ?thesis by simp
  next
    case (ImplKlass k)
    with Cons.prems have k: "k < length (klasses s)" by (simp add: impl_ok_def)
    have n: "pp k s \<noteq> None" using pp Cons.prems k by simp
    show ?thesis
    proof (cases "pp k s")
      case None
      with n show ?thesis by simp
    next
      case (Some r)
      show ?thesis
      proof (cases r)
        case (Inl e)
        with Some ImplKlass show ?thesis by simp
      next
        case (Inr s1)
        have r1: "resolvesIn this s s1"
          using ppr Some Inr resolves_resolvesIn by blast
        show ?thesis
        proof (cases "copyItems this (k_items (klasses s1 ! k)) s1")
          case l: (Inl e)
          with Some Inr ImplKlass show ?thesis by simp
        next
          case c: (Inr s2)
          have r2: "resolvesIn this s1 s2" using c by (rule copyItems_resolvesIn)
          have r: "resolvesIn this s s2" using r1 r2 by (rule resolvesIn_trans)
          have "\<forall>i\<in>set rest. impl_ok s2 i"
            using Cons.prems(3) impl_ok_length [OF resolvesIn_length [OF r]] by simp
          then have "forEachImpl pp this rest s2 \<noteq> None"
            using Cons.IH [of s2] resolvesIn_wellformed [OF r Cons.prems(1)]
              resolvesIn_unprocessed [OF r] Cons.prems(2) by simp
          with Some Inr ImplKlass c show ?thesis by simp
        qed
      qed
    qed
  qed
qed

lemma postProcess_terminates:
  "wellformed s \<Longrightarrow> this < length (klasses s) \<Longrightarrow> unprocessed s < fuel
   \<Longrightarrow> postProcess fuel this s \<noteq> None"
proof (induction fuel arbitrary: this s)
  case 0
  then show ?case by simp
next
  case (Suc fuel)
  show ?case
  proof (cases "k_postProcessed (klasses s ! this)")
    case True
    then show ?thesis by simp
  next
    case False
    let ?s2 = "markProcessed this s"
    have r2: "resolvesIn this s ?s2" by (rule resolvesIn_markProcessed)
    have w2: "wellformed ?s2" using r2 Suc.prems(1) by (rule resolvesIn_wellformed)
    have u2: "unprocessed ?s2 < fuel"
      using unprocessed_markProcessed [OF Suc.prems(2) False] Suc.prems(3) by simp
    have e: "extendsStep (postProcess fuel) this ?s2 \<noteq> None"
      using Suc.IH w2 u2 by (rule extendsStep_terminates)
    show ?thesis
    proof (cases "extendsStep (postProcess fuel) this ?s2")
      case None
      with e show ?thesis by simp
    next
      case (Some r)
      show ?thesis
      proof (cases r)
        case (Inl err)
        with Some False show ?thesis by simp
      next
        case (Inr s3)
        have r3: "resolvesIn this ?s2 s3"
          using postProcess_resolves Some [unfolded Inr] by (rule extendsStep_resolvesIn)
        show ?thesis
        proof (cases "usesStep this s3")
          case l: (Inl err)
          with Some Inr False show ?thesis by simp
        next
          case u: (Inr s4)
          have r4: "resolvesIn this s3 s4" using u by (rule usesStep_resolvesIn)
          have r24: "resolvesIn this ?s2 s4" using r3 r4 by (rule resolvesIn_trans)
          have w4: "wellformed s4" using r24 w2 by (rule resolvesIn_wellformed)
          have u4: "unprocessed s4 < fuel" using resolvesIn_unprocessed [OF r24] u2 by simp
          have t4: "this < length (klasses s4)"
            using resolvesIn_length [OF r24] resolvesIn_length [OF r2] Suc.prems(2) by simp
          show ?thesis
          proof (cases "k_implements (klasses s4 ! this)")
            case None
            with Some Inr u False show ?thesis by simp
          next
            case i: (Some impls)
            have "\<forall>i\<in>set impls. impl_ok s4 i"
              using wellformed_impls [OF w4 t4 i] by simp
            then have "forEachImpl (postProcess fuel) this impls s4 \<noteq> None"
              using forEachImpl_terminates [of fuel "postProcess fuel" s4 impls this]
                Suc.IH postProcess_resolves w4 u4 by blast
            with Some Inr u i False show ?thesis by simp
          qed
        qed
      qed
    qed
  qed
qed

subsection \<open>Registration keeps the state well formed\<close>


lemma setNamespace_simps [simp]:
  "klasses (setNamespace n f s) = klasses s"
  "classes (setNamespace n f s) = classes s"
  "warnings (setNamespace n f s) = warnings s"
  "length (nss (setNamespace n f s)) = length (nss s)"
  by (simp_all add: setNamespace_def)





















subsection \<open>Runs with nothing to report\<close>

lemma found_iff:
  "(case Klass_find s n False of Inr (Some c) \<Rightarrow> True | _ \<Rightarrow> False)
   \<longleftrightarrow> (\<exists>c. Klass_find s n False = Inr (Some c))"
  by (simp split: sum.splits option.splits)

lemma no_throw_iff:
  "(case Klass_find s n False of Inl e \<Rightarrow> False | Inr r \<Rightarrow> True)
   \<longleftrightarrow> (\<exists>r. Klass_find s n False = Inr r)"
  by (simp split: sum.splits)

lemma uses_ok_iff:
  "(case u of None \<Rightarrow> True
    | Some uses \<Rightarrow> list_all (\<lambda>m. case Klass_find s m False of Inl e \<Rightarrow> False | Inr r \<Rightarrow> True) uses)
   \<longleftrightarrow> (\<forall>uses. u = Some uses \<longrightarrow> (\<forall>m\<in>set uses. \<exists>r. Klass_find s m False = Inr r))"
  by (cases u) (simp_all add: list_all_iff no_throw_iff)

lemma names_ok_iff:
  "names_ok s \<longleftrightarrow>
     (\<forall>j<length (klasses s).
        (truthy (cd_extends (k_data (klasses s ! j))) \<longrightarrow>
           (\<exists>c. Klass_find s (js_str (cd_extends (k_data (klasses s ! j)))) False = Inr (Some c)))
        \<and> (\<forall>uses. cd_uses (k_data (klasses s ! j)) = Some uses \<longrightarrow>
              (\<forall>m\<in>set uses. \<exists>r. Klass_find s m False = Inr r)))"
  unfolding names_ok_def list_all_length [of _ "klasses s"] found_iff uses_ok_iff ..

lemma no_mixins_iff:
  "no_mixins s \<longleftrightarrow>
     (\<forall>j<length (klasses s). cd_uses (k_data (klasses s ! j)) = None
                             \<and> k_implements (klasses s ! j) = None)"
  by (simp add: no_mixins_def list_all_length)

lemma all_public_iff:
  "all_public s \<longleftrightarrow>
     (\<forall>j<length (klasses s). \<forall>e\<in>set (k_items (klasses s ! j)).
        \<not> ci_private (snd e) \<and> d_access (ci_data (snd e)) \<noteq> Some ''private'')"
  unfolding all_public_def list_all_length [of _ "klasses s"]
  by (simp add: list_all_iff)

lemma names_ok_resolvesIn:
  assumes "resolvesIn this s s'" and "names_ok s"
  shows "names_ok s'"
proof -
  have n: "nss s' = nss s" and l: "length (klasses s') = length (klasses s)"
    and d: "\<And>j. j < length (klasses s) \<Longrightarrow> k_data (klasses s' ! j) = k_data (klasses s ! j)"
    using assms(1) by (simp_all add: resolvesIn_def keeps_def)
  show ?thesis
    using assms(2) unfolding names_ok_iff by (simp add: l d Klass_find_nss [OF n])
qed

lemma calm_wellformed: "calm s \<Longrightarrow> wellformed s"
  by (simp add: calm_def)

lemma calm_setKlass:
  assumes c: "calm s" and r: "resolvesIn this s (setKlass this f s)"
    and m: "no_mixins s \<Longrightarrow> this < length (klasses s) \<Longrightarrow> k_implements (f (klasses s ! this)) = None"
    and p: "all_public s \<Longrightarrow> this < length (klasses s) \<Longrightarrow>
              \<forall>e\<in>set (k_items (f (klasses s ! this))).
                \<not> ci_private (snd e) \<and> d_access (ci_data (snd e)) \<noteq> Some ''private''"
    and b: "this < length (klasses s) \<Longrightarrow>
              \<forall>e\<in>set (k_items (f (klasses s ! this))). buildable s (ci_data (snd e))"
  shows "calm (setKlass this f s)"
proof -
  let ?s = "setKlass this f s"
  have w: "wellformed ?s" using c r by (simp add: calm_def resolvesIn_def)
  have n: "names_ok ?s" using r c names_ok_resolvesIn by (simp add: calm_def)
  have bs: "builds s" and ws: "wellformed s" using c by (simp_all add: calm_def)
  have "buildable s (ci_data (snd e))"
    if "j < length (klasses s)" "e \<in> set (k_items (klasses ?s ! j))" for j e
    using that b bs unfolding builds_iff by (cases "j = this") (auto simp: nth_setKlass)
  then have bl: "builds ?s"
    unfolding builds_iff [of ?s] by (simp add: buildable_resolvesIn [OF r ws])
  have d: "\<And>j. j < length (klasses s) \<Longrightarrow> k_data (klasses ?s ! j) = k_data (klasses s ! j)"
    using r by (simp add: resolvesIn_def keeps_def)
  have "no_mixins ?s \<or> all_public ?s"
  proof (cases "no_mixins s")
    case True
    then have "no_mixins ?s"
      using m d unfolding no_mixins_iff by (simp add: nth_setKlass)
    then show ?thesis ..
  next
    case False
    with c have a: "all_public s" by (simp add: calm_def)
    then have "all_public ?s"
      using p unfolding all_public_iff by (simp add: nth_setKlass)
    then show ?thesis ..
  qed
  with w n bl show ?thesis by (simp add: calm_def)
qed

lemma calm_builds:
  "calm s \<Longrightarrow> j < length (klasses s) \<Longrightarrow> e \<in> set (k_items (klasses s ! j))
   \<Longrightarrow> buildable s (ci_data (snd e))"
  unfolding calm_def builds_iff by blast

lemma calm_setField:
  assumes "calm s" "\<And>k. keeps k (f k)" "\<And>k. k_items (f k) = k_items k"
    "\<And>k. k_implements (f k) = k_implements k"
  shows "calm (setKlass this f s)"
proof (rule calm_setKlass [OF assms(1)])
  show "resolvesIn this s (setKlass this f s)"
    using assms(2-4) by (rule resolvesIn_setField)
next
  assume "no_mixins s" "this < length (klasses s)"
  then show "k_implements (f (klasses s ! this)) = None"
    by (simp add: assms(4) no_mixins_iff)
next
  assume "all_public s" "this < length (klasses s)"
  then show "\<forall>e\<in>set (k_items (f (klasses s ! this))).
                \<not> ci_private (snd e) \<and> d_access (ci_data (snd e)) \<noteq> Some ''private''"
    by (simp add: assms(3) all_public_iff)
next
  assume "this < length (klasses s)"
  then show "\<forall>e\<in>set (k_items (f (klasses s ! this))). buildable s (ci_data (snd e))"
    using calm_builds [OF assms(1), of this] by (simp add: assms(3))
qed

lemma calm_setItem:
  assumes c: "calm s" and n: "ClassItem_new s d this = Inr item"
    and p: "all_public s \<Longrightarrow> d_access d \<noteq> Some ''private''"
    and bd: "buildable s d"
  shows "calm (setKlass this (\<lambda>k. k\<lparr>k_items := AList.update name item (k_items k)\<rparr>) s)"
proof (rule calm_setKlass [OF c])
  show "resolvesIn this s (setKlass this (\<lambda>k. k\<lparr>k_items := AList.update name item (k_items k)\<rparr>) s)"
    by (rule resolvesIn_setItem) (use ClassItem_new_Inr [OF n] in simp)
next
  assume "no_mixins s" "this < length (klasses s)"
  then show "k_implements ((klasses s ! this)\<lparr>k_items := AList.update name item (k_items (klasses s ! this))\<rparr>) = None"
    by (simp add: no_mixins_iff)
next
  assume a: "all_public s" and t: "this < length (klasses s)"
  show "\<forall>e\<in>set (k_items ((klasses s ! this)\<lparr>k_items := AList.update name item (k_items (klasses s ! this))\<rparr>)).
          \<not> ci_private (snd e) \<and> d_access (ci_data (snd e)) \<noteq> Some ''private''"
  proof
    fix e
    assume "e \<in> set (k_items ((klasses s ! this)\<lparr>k_items := AList.update name item (k_items (klasses s ! this))\<rparr>))"
    then have "e = (name, item) \<or> e \<in> set (k_items (klasses s ! this))"
      using set_AList_update [of e name item] by simp
    then show "\<not> ci_private (snd e) \<and> d_access (ci_data (snd e)) \<noteq> Some ''private''"
    proof
      assume "e = (name, item)"
      then show ?thesis using ClassItem_new_Inr [OF n] p [OF a] by simp
    next
      assume "e \<in> set (k_items (klasses s ! this))"
      then show ?thesis using a t unfolding all_public_iff by blast
    qed
  qed
next
  assume t: "this < length (klasses s)"
  show "\<forall>e\<in>set (k_items ((klasses s ! this)\<lparr>k_items := AList.update name item (k_items (klasses s ! this))\<rparr>)).
          buildable s (ci_data (snd e))"
  proof
    fix e
    assume "e \<in> set (k_items ((klasses s ! this)\<lparr>k_items := AList.update name item (k_items (klasses s ! this))\<rparr>))"
    then have "e = (name, item) \<or> e \<in> set (k_items (klasses s ! this))"
      using set_AList_update [of e name item] by simp
    then show "buildable s (ci_data (snd e))"
    proof
      assume "e = (name, item)"
      then show ?thesis using ClassItem_new_Inr [OF n] bd by simp
    next
      assume "e \<in> set (k_items (klasses s ! this))"
      then show ?thesis by (rule calm_builds [OF c t])
    qed
  qed
qed

lemma copyItems_calm:
  "calm s \<Longrightarrow> all_public s \<Longrightarrow> this < length (klasses s)
   \<Longrightarrow> \<forall>e\<in>set items. buildable s (ci_data (snd e)) \<and> d_access (ci_data (snd e)) \<noteq> Some ''private''
   \<Longrightarrow> \<exists>s'. copyItems this items s = Inr s' \<and> warnings s' = warnings s \<and> calm s' \<and> all_public s'"
proof (induction items arbitrary: s)
  case Nil
  then show ?case by simp
next
  case (Cons e rest)
  obtain name i where e: "e = (name, i)" by (cases e)
  show ?case
  proof (cases "ci_private i")
    case True
    with Cons e show ?thesis by simp
  next
    case False
    show ?thesis
    proof (cases "map_of (k_items (klasses s ! this)) name")
      case (Some existing)
      then have "(name, existing) \<in> set (k_items (klasses s ! this))" by (rule map_of_SomeD)
      then have "\<not> ci_private existing"
        using Cons.prems(2,3) unfolding all_public_iff by fastforce
      with Cons e False Some show ?thesis by simp
    next
      case None
      from Cons.prems(4) e have ok: "buildable s (ci_data i)" and pub: "d_access (ci_data i) \<noteq> Some ''private''"
        by simp_all
      from ok Cons.prems(3) obtain item where n: "ClassItem_new s (ci_data i) this = Inr item"
        unfolding buildable_iff by blast
      let ?s1 = "setKlass this (\<lambda>k. k\<lparr>k_items := AList.update name item (k_items k)\<rparr>) s"
      have c1: "calm ?s1" using Cons.prems(1) n pub ok by (rule calm_setItem)
      have r1: "resolvesIn this s ?s1"
        by (rule resolvesIn_setItem) (use ClassItem_new_Inr [OF n] in simp)
      have b1: "\<forall>e\<in>set rest. buildable ?s1 (ci_data (snd e))
                  \<and> d_access (ci_data (snd e)) \<noteq> Some ''private''"
        using Cons.prems(4) buildable_resolvesIn [OF r1 calm_wellformed [OF Cons.prems(1)]] by simp
      have a1: "all_public ?s1"
      proof -
        have "\<not> ci_private (snd x) \<and> d_access (ci_data (snd x)) \<noteq> Some ''private''"
          if "x \<in> set (AList.update name item (k_items (klasses s ! this)))" for x
          using set_AList_update [OF that] ClassItem_new_Inr [OF n] pub Cons.prems(2,3)
          unfolding all_public_iff by fastforce
        then show ?thesis
          using Cons.prems(2) unfolding all_public_iff by (simp add: nth_setKlass)
      qed
      from Cons.IH [OF c1 a1 _ b1] Cons.prems(3) obtain s' where
        "copyItems this rest ?s1 = Inr s'" "warnings s' = warnings ?s1" "calm s'" "all_public s'"
        by auto
      with e False None n show ?thesis by simp
    qed
  qed
qed

lemma usesStep_calm:
  assumes c: "calm s" and t: "this < length (klasses s)"
  shows "\<exists>s'. usesStep this s = Inr s' \<and> warnings s' = warnings s \<and> calm s'"
proof (cases "cd_uses (k_data (klasses s ! this))")
  case None
  with c show ?thesis by (simp add: usesStep_def)
next
  case (Some uses)
  have "\<forall>m\<in>set uses. \<exists>r. Klass_find s m False = Inr r"
    using c t Some unfolding calm_def names_ok_iff by blast
  then have "\<exists>found. findAll s uses = Inr found"
    by (induction uses) (auto split: sum.splits)
  then obtain found where f: "findAll s uses = Inr found" ..
  let ?impls = "List.map_filter id found"
  show ?thesis
  proof (cases "?impls = []")
    case True
    with Some f c show ?thesis by (simp add: usesStep_def)
  next
    case False
    let ?s' = "setKlass this (\<lambda>k. k\<lparr>k_implements := Some (map ImplKlass ?impls)\<rparr>) s"
    from False Some f have u: "usesStep this s = Inr ?s'" by (simp add: usesStep_def)
    have nm: "\<not> no_mixins s" using Some t unfolding no_mixins_iff by auto
    have "calm ?s'"
    proof (rule calm_setKlass [OF c])
      show "resolvesIn this s ?s'" using u by (rule usesStep_resolvesIn)
    next
      assume "no_mixins s"
      with nm show "k_implements ((klasses s ! this)\<lparr>k_implements := Some (map ImplKlass ?impls)\<rparr>) = None"
        by simp
    next
      assume "all_public s" "this < length (klasses s)"
      then show "\<forall>e\<in>set (k_items ((klasses s ! this)\<lparr>k_implements := Some (map ImplKlass ?impls)\<rparr>)).
                   \<not> ci_private (snd e) \<and> d_access (ci_data (snd e)) \<noteq> Some ''private''"
        unfolding all_public_iff by simp
    next
      assume "this < length (klasses s)"
      then show "\<forall>e\<in>set (k_items ((klasses s ! this)\<lparr>k_implements := Some (map ImplKlass ?impls)\<rparr>)).
                   buildable s (ci_data (snd e))"
        using calm_builds [OF c, of this] by simp
    qed
    with u show ?thesis by simp
  qed
qed

lemma all_public_setKlass:
  assumes "all_public s"
    and "this < length (klasses s) \<Longrightarrow>
           \<forall>e\<in>set (k_items (f (klasses s ! this))).
             \<not> ci_private (snd e) \<and> d_access (ci_data (snd e)) \<noteq> Some ''private''"
  shows "all_public (setKlass this f s)"
  using assms unfolding all_public_iff by (simp add: nth_setKlass)

lemma all_public_setField:
  assumes "all_public s" "\<And>k. k_items (f k) = k_items k"
  shows "all_public (setKlass this f s)"
  using assms(1) by (rule all_public_setKlass) (use assms in \<open>simp add: all_public_iff\<close>)

lemma all_public_setItem:
  assumes a: "all_public s" and n: "ClassItem_new s d this = Inr item"
    and p: "d_access d \<noteq> Some ''private''"
  shows "all_public (setKlass this (\<lambda>k. k\<lparr>k_items := AList.update name item (k_items k)\<rparr>) s)"
proof (rule all_public_setKlass [OF a])
  assume t: "this < length (klasses s)"
  have "\<not> ci_private (snd x) \<and> d_access (ci_data (snd x)) \<noteq> Some ''private''"
    if "x \<in> set (AList.update name item (k_items (klasses s ! this)))" for x
    using set_AList_update [OF that] ClassItem_new_Inr [OF n] p a t
    unfolding all_public_iff by fastforce
  then show "\<forall>e\<in>set (k_items ((klasses s ! this)\<lparr>k_items := AList.update name item (k_items (klasses s ! this))\<rparr>)).
               \<not> ci_private (snd e) \<and> d_access (ci_data (snd e)) \<noteq> Some ''private''"
    by simp
qed

lemma quietI:
  "warnings s' = warnings s \<Longrightarrow> calm s' \<Longrightarrow> (all_public s \<Longrightarrow> all_public s') \<Longrightarrow> quiet s (Inr s')"
  by (simp add: quiet_def)

lemma quiet_trans:
  assumes "quiet s (Inr s1)" "quiet s1 r"
  shows "quiet s r"
  using assms by (auto simp: quiet_def)

lemma extendsStep_calm:
  assumes pp: "\<And>k s r. calm s \<Longrightarrow> k < length (klasses s) \<Longrightarrow> pp k s = Some r \<Longrightarrow> quiet s r"
    and ppr: "\<And>k s s'. pp k s = Some (Inr s') \<Longrightarrow> resolves s s'"
    and c: "calm s" and t: "this < length (klasses s)"
    and step: "extendsStep pp this s = Some r"
  shows "quiet s r"
proof (cases "truthy (cd_extends (k_data (klasses s ! this)))")
  case False
  with step c show ?thesis by (auto simp: extendsStep_def intro: quietI)
next
  case True
  let ?e = "js_str (cd_extends (k_data (klasses s ! this)))"
  from c t True obtain klass where f: "Klass_find s ?e False = Inr (Some klass)"
    unfolding calm_def names_ok_iff by blast
  have kl: "klass < length (klasses s)"
    using calm_wellformed [OF c] f by (rule Klass_find_valid)
  let ?s0 = "setKlass this (\<lambda>k. k\<lparr>k_extends := Some klass\<rparr>) s"
  have c0: "calm ?s0" using c by (rule calm_setField) (simp_all add: keeps_def)
  have q0: "quiet s (Inr ?s0)"
    using c0 by (intro quietI all_public_setField) simp_all
  show ?thesis
  proof (cases "pp klass ?s0")
    case None
    with step True f show ?thesis by (simp add: extendsStep_def)
  next
    case (Some r0)
    have "quiet ?s0 r0" using c0 _ Some by (rule pp) (use kl in simp)
    then obtain s1 where r0: "r0 = Inr s1" and q1: "quiet ?s0 (Inr s1)"
      by (auto simp: quiet_def)
    have c1: "calm s1" using q1 by (simp add: quiet_def)
    have l1: "length (klasses s1) = length (klasses s)"
      using ppr [OF Some [unfolded r0]] by (simp add: resolves_def)
    show ?thesis
    proof (cases "map_of (k_items (klasses s1 ! klass)) ''static:create''")
      case None
      with step True f Some r0 have "r = Inr s1" by (simp add: extendsStep_def)
      with q0 q1 show ?thesis using quiet_trans by blast
    next
      case pc: (Some parentCreate)
      then have mem: "(''static:create'', parentCreate) \<in> set (k_items (klasses s1 ! klass))"
        by (rule map_of_SomeD)
      have ok: "buildable s1 (ci_data parentCreate)"
        using calm_builds [OF c1 _ mem] kl l1 by simp
      then obtain item where
        n: "ClassItem_new s1 (ci_data parentCreate) this = Inr item"
        unfolding buildable_iff using t l1 by auto
      let ?s' = "setKlass this (\<lambda>k. k\<lparr>k_items := AList.update ''static:create'' item (k_items k)\<rparr>) s1"
      from step True f Some r0 pc n have r: "r = Inr ?s'" by (simp add: extendsStep_def)
      have pub: "all_public s1 \<Longrightarrow> d_access (ci_data parentCreate) \<noteq> Some ''private''"
        using mem kl l1 unfolding all_public_iff by fastforce
      have "calm ?s'" using c1 n pub ok by (rule calm_setItem)
      then have "quiet s1 (Inr ?s')"
        using all_public_setItem [OF _ n] pub by (intro quietI) simp_all
      with q0 q1 r show ?thesis using quiet_trans by blast
    qed
  qed
qed

lemma forEachImpl_calm:
  assumes pp: "\<And>k s r. calm s \<Longrightarrow> k < length (klasses s) \<Longrightarrow> pp k s = Some r \<Longrightarrow> quiet s r"
    and ppr: "\<And>k s s'. pp k s = Some (Inr s') \<Longrightarrow> resolves s s'"
    and t: "this < n"
  shows "calm s \<Longrightarrow> all_public s \<Longrightarrow> length (klasses s) = n \<Longrightarrow> \<forall>i\<in>set impls. impl_ok s i
         \<Longrightarrow> forEachImpl pp this impls s = Some r \<Longrightarrow> quiet s r"
proof (induction impls arbitrary: s)
  case Nil
  then show ?case by (auto intro: quietI)
next
  case (Cons i rest)
  show ?case
  proof (cases i)
    case (ImplString str)
    with Cons show ?thesis by simp
  next
    case (ImplKlass k)
    with Cons.prems have k: "k < length (klasses s)" by (simp add: impl_ok_def)
    show ?thesis
    proof (cases "pp k s")
      case None
      with Cons.prems(5) ImplKlass show ?thesis by simp
    next
      case (Some r0)
      have "quiet s r0" using Cons.prems(1) k Some by (rule pp)
      then obtain s1 where r0: "r0 = Inr s1" and q1: "quiet s (Inr s1)"
        by (auto simp: quiet_def)
      have c1: "calm s1" and a1: "all_public s1"
        using q1 Cons.prems(2) by (simp_all add: quiet_def)
      have l1: "length (klasses s1) = length (klasses s)"
        using ppr [OF Some [unfolded r0]] by (simp add: resolves_def)
      have its: "\<forall>e\<in>set (k_items (klasses s1 ! k)).
                   buildable s1 (ci_data (snd e)) \<and> d_access (ci_data (snd e)) \<noteq> Some ''private''"
        using calm_builds [OF c1, of k] a1 k l1
        unfolding all_public_iff by fastforce
      from copyItems_calm [OF c1 a1 _ its, of this] t Cons.prems(3) l1
      obtain s2 where cp: "copyItems this (k_items (klasses s1 ! k)) s1 = Inr s2"
        and w2: "warnings s2 = warnings s1" and c2: "calm s2" and a2: "all_public s2"
        by auto
      have l2: "length (klasses s2) = length (klasses s)"
        using resolvesIn_length [OF copyItems_resolvesIn [OF cp]] l1 by simp
      have q2: "quiet s1 (Inr s2)" using w2 c2 a2 by (intro quietI)
      from Cons.prems(5) ImplKlass Some r0 cp
      have f: "forEachImpl pp this rest s2 = Some r" by simp
      have "\<forall>i\<in>set rest. impl_ok s2 i"
        using Cons.prems(4) impl_ok_length [OF l2] by simp
      then have "quiet s2 r"
        using Cons.IH [OF c2 a2 _ _ f] l2 Cons.prems(3) by simp
      with q1 q2 show ?thesis using quiet_trans by blast
    qed
  qed
qed

lemma calm_markProcessed: "calm s \<Longrightarrow> calm (markProcessed this s)"
  unfolding markProcessed_def Let_def
  by (intro calm_setField) (simp_all add: keeps_def)

lemma all_public_markProcessed: "all_public s \<Longrightarrow> all_public (markProcessed this s)"
  unfolding markProcessed_def Let_def
  by (intro all_public_setField) simp_all

lemma warnings_markProcessed [simp]: "warnings (markProcessed this s) = warnings s"
  by (simp add: markProcessed_def Let_def)

lemma length_markProcessed [simp]: "length (klasses (markProcessed this s)) = length (klasses s)"
  by (simp add: markProcessed_def Let_def)

lemma usesStep_all_public: "usesStep this s = Inr s' \<Longrightarrow> all_public s \<Longrightarrow> all_public s'"
  by (auto simp: usesStep_def Let_def all_public_setField split: option.splits sum.splits if_splits)

lemma postProcess_calm:
  "calm s \<Longrightarrow> this < length (klasses s) \<Longrightarrow> postProcess fuel this s = Some r \<Longrightarrow> quiet s r"
proof (induction fuel arbitrary: this s r)
  case 0
  then show ?case by simp
next
  case (Suc fuel)
  show ?case
  proof (cases "k_postProcessed (klasses s ! this)")
    case True
    with Suc.prems show ?thesis by (auto intro: quietI)
  next
    case False
    let ?s2 = "markProcessed this s"
    have c2: "calm ?s2" using Suc.prems(1) by (rule calm_markProcessed)
    have q2: "quiet s (Inr ?s2)"
      using c2 by (intro quietI all_public_markProcessed) simp_all
    have t2: "this < length (klasses ?s2)" using Suc.prems(2) by simp
    show ?thesis
    proof (cases "extendsStep (postProcess fuel) this ?s2")
      case None
      with Suc.prems(3) False show ?thesis by simp
    next
      case (Some r3)
      have "quiet ?s2 r3"
        using Suc.IH postProcess_resolves c2 t2 Some by (rule extendsStep_calm)
      then obtain s3 where r3: "r3 = Inr s3" and q3: "quiet ?s2 (Inr s3)"
        by (auto simp: quiet_def)
      have c3: "calm s3" using q3 by (simp add: quiet_def)
      have l3: "length (klasses s3) = length (klasses s)"
        using resolvesIn_length [OF extendsStep_resolvesIn [OF postProcess_resolves Some [unfolded r3]]]
        by simp
      from usesStep_calm [OF c3, of this] l3 Suc.prems(2) obtain s4 where
        u: "usesStep this s3 = Inr s4" and w4: "warnings s4 = warnings s3" and c4: "calm s4"
        by auto
      have l4: "length (klasses s4) = length (klasses s)"
        using resolvesIn_length [OF usesStep_resolvesIn [OF u]] l3 by simp
      have q4: "quiet s3 (Inr s4)"
        using w4 c4 usesStep_all_public [OF u] by (intro quietI)
      have q: "quiet s (Inr s4)" using q2 q3 q4 quiet_trans by blast
      show ?thesis
      proof (cases "k_implements (klasses s4 ! this)")
        case None
        with Suc.prems(3) False Some r3 u have "r = Inr s4" by simp
        with q show ?thesis by simp
      next
        case i: (Some impls)
        with Suc.prems(3) False Some r3 u
        have f: "forEachImpl (postProcess fuel) this impls s4 = Some r" by simp
        have "\<not> no_mixins s4" using i l4 Suc.prems(2) unfolding no_mixins_iff by auto
        with c4 have ap: "all_public s4" by (simp add: calm_def)
        have io: "\<forall>i\<in>set impls. impl_ok s4 i"
          using wellformed_impls [OF calm_wellformed [OF c4] _ i] l4 Suc.prems(2) by simp
        have "quiet s4 r"
          using forEachImpl_calm [of "postProcess fuel" this "length (klasses s4)" s4 impls r]
            Suc.IH postProcess_resolves c4 ap io f l4 Suc.prems(2) by simp
        with q show ?thesis using quiet_trans by blast
      qed
    qed
  qed
qed

lemma nss_markProcessed [simp]: "nss (markProcessed this s) = nss s"
  by (simp add: markProcessed_def Let_def)

lemma markProcessed_this:
  assumes "this < length (klasses s)"
  shows "k_items (klasses (markProcessed this s) ! this) = k_items (klasses s ! this)"
    and "k_implements (klasses (markProcessed this s) ! this) = k_implements (klasses s ! this)"
    and "k_data (klasses (markProcessed this s) ! this) = k_data (klasses s ! this)"
  by (rule klasses_markProcessed [OF assms], simp add: assms)+

section \<open>Declarations of a method with a rest parameter\<close>

lemma find_first_rest:
  assumes "i < length ps" "P (ps ! i)" "\<forall>j<i. \<not> P (ps ! j)"
  shows "find P ps = Some (ps ! i)"
  using assms by (auto simp: find_Some_iff)

lemma indexOf_first:
  assumes "i < length ps" "P (ps ! i)" "\<forall>j<i. \<not> P (ps ! j)"
  shows "indexOf ps (ps ! i) = i"
proof -
  have "takeWhile (\<lambda>y. y \<noteq> ps ! i) ps = take i ps"
  proof (rule takeWhile_eq_take_P_nth)
    fix j assume "j < i" "j < length ps"
    with assms show "ps ! j \<noteq> ps ! i" by metis
  qed simp
  with assms(1) show ?thesis by (simp add: indexOf_def)
qed

text \<open>
  Claim C3, as the code has it. A method whose first rest parameter, at index \<open>i\<close>, is
  not its last parameter has exactly two declarations. The first lists the parameters
  up to and with the rest parameter, which is printed as \<^verbatim>\<open>...name: T[]\<close> for the first
  type \<^verbatim>\<open>T\<close> of its union (\<^verbatim>\<open>any\<close> for \<^verbatim>\<open>{}\<close>). The second lists every parameter that is
  not a rest parameter: the parameters after the rest parameter are kept.
\<close>

theorem declarations_rest_not_last:
  assumes "ci_itemType item = ''method''" and "ci_params item = Some ps"
    and "Suc i < length ps" and "p_rest (ps ! i)" and "\<forall>j<i. \<not> p_rest (ps ! j)"
  shows "declarations s item =
           [declName s item @ ''(''
              @ js_join '', '' (map ClassItemParam_toString (take (Suc i) ps)) @ '')'' @ declReturn item,
            declName s item @ ''(''
              @ js_join '', '' (map ClassItemParam_toString (filter (\<lambda>p. \<not> p_rest p) ps)) @ '')''
              @ declReturn item]
         \<and> ClassItemParam_toString (ps ! i) =
             ''...'' @ p_name (ps ! i) @ '': ''
             @ (if hd (js_split CHR ''|'' (p_type (ps ! i))) = ''{}'' then ''any''
                else hd (js_split CHR ''|'' (p_type (ps ! i)))) @ ''[]''"
proof -
  from assms have i: "i < length ps" by simp
  have f: "find p_rest ps = Some (ps ! i)"
    using find_first_rest [of i ps p_rest] i assms(4,5) by simp
  have ix: "indexOf ps (ps ! i) = i"
    using indexOf_first [of i ps p_rest] i assms(4,5) by simp
  have ne: "i \<noteq> length ps - 1" using assms(3) by simp
  have p1: "declParams item False = take (Suc i) ps"
    by (simp add: declParams_def assms(2) f ix)
  have p2: "declParams item True = filter (\<lambda>p. \<not> p_rest p) ps"
    by (simp add: declParams_def assms(2))
  have d: "declarations s item = [buildDeclaration s item False, buildDeclaration s item True]"
    using ne by (simp add: declarations_def assms(2) f ix)
  have t: "ClassItemParam_toString (ps ! i) =
             ''...'' @ p_name (ps ! i) @ '': ''
             @ (if hd (js_split CHR ''|'' (p_type (ps ! i))) = ''{}'' then ''any''
                else hd (js_split CHR ''|'' (p_type (ps ! i)))) @ ''[]''"
    using assms(4) by (simp add: ClassItemParam_toString_def Let_def)
  show ?thesis
    unfolding d using t by (simp add: buildDeclaration_def assms(1) p1 p2)
qed

theorem declarations_rest_not_last_witness:
  "p_rest (the (ci_params restItem) ! 1) \<and> \<not> p_rest (the (ci_params restItem) ! 0)
   \<and> declarations restState restItem = [''foo(a: any, ...b: string[])'', ''foo(a: any, c: any)'']"
proof -
  let ?ps = "[\<lparr>p_name = ''a'', p_rest = False, p_type = ''any''\<rparr>,
              \<lparr>p_name = ''b'', p_rest = True, p_type = ''string|number''\<rparr>,
              \<lparr>p_name = ''c'', p_rest = False, p_type = ''any''\<rparr>]"
  have a: "ci_itemType restItem = ''method''" by (simp add: restItem_def)
  have b: "ci_params restItem = Some ?ps" by (simp add: restItem_def)
  have c: "Suc 1 < length ?ps" by simp
  have d: "p_rest (?ps ! 1)" by simp
  have e: "\<forall>j<1. \<not> p_rest (?ps ! j)" by simp
  have r1: "declName restState restItem @ ''(''
              @ js_join '', '' (map ClassItemParam_toString (take (Suc 1) ?ps)) @ '')''
              @ declReturn restItem = ''foo(a: any, ...b: string[])''"
    by code_simp
  have r2: "declName restState restItem @ ''(''
              @ js_join '', '' (map ClassItemParam_toString (filter (\<lambda>p. \<not> p_rest p) ?ps)) @ '')''
              @ declReturn restItem = ''foo(a: any, c: any)''"
    by code_simp
  from declarations_rest_not_last [OF a b c d e, of restState]
  show ?thesis unfolding r1 r2 by (simp add: b)
qed

text \<open>
  Claim C3 as stated fails: for \<^verbatim>\<open>foo(a, b*, c)\<close> the second declaration is
  \<^verbatim>\<open>foo(a: any, c: any)\<close>, with the parameter \<^verbatim>\<open>c\<close> that follows the rest parameter, and
  not \<^verbatim>\<open>foo(a: any)\<close>.
\<close>

theorem declarations_keep_following_params:
  "declarationsOf (resolveDocs 1 restDocs) 0 ''foo''
   = Some [''foo(a: any, ...b: string[])'', ''foo(a: any, c: any)'']"
  by code_simp

section \<open>The full name of a namespace\<close>

text \<open>
  Claim C5 at the registration of \<^verbatim>\<open>Ember.RSVP.Promise\<close>: the namespaces created are
  \<^verbatim>\<open>Ember\<close>, with the full name \<^verbatim>\<open>Ember.\<close>, and \<^verbatim>\<open>RSVP\<close> under it, with the full name
  \<^verbatim>\<open>RSVP.Ember\<close> (the claim says \<^verbatim>\<open>Ember.RSVP\<close>).
\<close>

theorem namespace_fullName_reversed:
  "map (\<lambda>n. (ns_name n, ns_parent n, ns_fullName n))
     (nss (fst (Klass_create init ''Ember.RSVP.Promise'' (classRecord ''Ember.RSVP.Promise'' None None))))
   = [(None, None, None),
      (Some ''Ember'', Some 0, Some ''Ember.''),
      (Some ''RSVP'', Some 1, Some ''RSVP.Ember'')]"
  by code_simp

section \<open>The commas of a generic type\<close>

text \<open>
  Claim C8 at the type \<^verbatim>\<open>Map<A,B,C>\<close>: only the first comma between the angle brackets
  becomes a bar.
\<close>

theorem convertType_first_comma_only:
  "convertType init ''Map<A,B,C>'' ''Foo'' = Inr ''Map<A|B,C>''"
  by code_simp

section \<open>What a class takes from the class it extends\<close>

lemma usesStep_this:
  assumes "usesStep this s = Inr s'" and "j < length (klasses s)"
  shows "k_items (klasses s' ! j) = k_items (klasses s ! j)"
    and "k_postProcessed (klasses s' ! j) = k_postProcessed (klasses s ! j)"
  using assms
  by (auto simp: usesStep_def Let_def nth_setKlass split: option.splits sum.splits if_splits)

lemma copyItems_entry:
  "copyItems this items s = Inr s' \<Longrightarrow> this < length (klasses s)
   \<Longrightarrow> map_of (k_items (klasses s ! this)) key = Some c
   \<Longrightarrow> \<exists>c'. map_of (k_items (klasses s' ! this)) key = Some c'
            \<and> ci_data c' = ci_data c \<and> ci_klass c' = ci_klass c"
proof (induction items arbitrary: s c)
  case Nil
  then show ?case by simp
next
  case (Cons e rest)
  obtain name i where e: "e = (name, i)" by (cases e)
  show ?case
  proof (cases "ci_private i")
    case True
    with Cons e show ?thesis by simp
  next
    case False
    show ?thesis
    proof (cases "map_of (k_items (klasses s ! this)) name")
      case None
      with Cons.prems e False obtain item where
        c: "copyItems this rest
              (setKlass this (\<lambda>k. k\<lparr>k_items := AList.update name item (k_items k)\<rparr>) s) = Inr s'"
        by (auto split: sum.splits)
      from None Cons.prems(3) have "name \<noteq> key" by auto
      then have "map_of (k_items (klasses (setKlass this (\<lambda>k. k\<lparr>k_items := AList.update name item (k_items k)\<rparr>) s) ! this)) key
                 = Some c"
        using Cons.prems(2,3) by (simp add: nth_setKlass update_conv')
      from Cons.IH [OF c _ this] Cons.prems(2) show ?thesis by simp
    next
      case (Some existing)
      show ?thesis
      proof (cases "ci_private existing")
        case f: False
        with Cons e False Some show ?thesis by simp
      next
        case True
        let ?s = "setKlass this
                    (\<lambda>k. k\<lparr>k_items := AList.update name (existing\<lparr>ci_private := False\<rparr>) (k_items k)\<rparr>)
                    (warn (''Setting private to false for '' @ k_fullName (klasses s ! this) @ ''#''
                           @ name @ '' since it's required for implementation'') s)"
        from Cons.prems e False Some True have c: "copyItems this rest ?s = Inr s'" by simp
        obtain c1 where c1: "map_of (k_items (klasses ?s ! this)) key = Some c1"
          "ci_data c1 = ci_data c" "ci_klass c1 = ci_klass c"
          using Cons.prems(2,3) Some by (cases "name = key") (auto simp: nth_setKlass update_conv')
        from Cons.IH [OF c _ c1(1)] Cons.prems(2) c1(2,3) show ?thesis by simp
      qed
    qed
  qed
qed

lemma forEachImpl_entry:
  assumes ppr: "\<And>k s s'. pp k s = Some (Inr s') \<Longrightarrow> resolves s s'"
  shows "forEachImpl pp this impls s = Some (Inr s') \<Longrightarrow> this < length (klasses s)
         \<Longrightarrow> k_postProcessed (klasses s ! this)
         \<Longrightarrow> map_of (k_items (klasses s ! this)) key = Some c
         \<Longrightarrow> \<exists>c'. map_of (k_items (klasses s' ! this)) key = Some c'
                  \<and> ci_data c' = ci_data c \<and> ci_klass c' = ci_klass c"
proof (induction impls arbitrary: s c)
  case Nil
  then show ?case by simp
next
  case (Cons i rest)
  show ?case
  proof (cases i)
    case (ImplString str)
    with Cons show ?thesis by simp
  next
    case (ImplKlass k)
    with Cons.prems(1) obtain s1 s2 where s1: "pp k s = Some (Inr s1)"
      and s2: "copyItems this (k_items (klasses s1 ! k)) s1 = Inr s2"
      and r: "forEachImpl pp this rest s2 = Some (Inr s')"
      by (auto split: option.splits sum.splits)
    have r1: "resolves s s1" using s1 by (rule ppr)
    then have same: "klasses s1 ! this = klasses s ! this" and l1: "length (klasses s1) = length (klasses s)"
      using Cons.prems(2,3) by (simp_all add: resolves_def)
    from copyItems_entry [OF s2, of key c] same l1 Cons.prems(2,4) obtain c2 where
      c2: "map_of (k_items (klasses s2 ! this)) key = Some c2" "ci_data c2 = ci_data c"
        "ci_klass c2 = ci_klass c" by auto
    have r2: "resolvesIn this s1 s2" using s2 by (rule copyItems_resolvesIn)
    have f2: "k_postProcessed (klasses s2 ! this)"
      using resolvesIn_flag [OF r2, of this] same l1 Cons.prems(2,3) by simp
    have l2: "this < length (klasses s2)"
      using resolvesIn_length [OF r2] l1 Cons.prems(2) by simp
    from Cons.IH [OF r l2 f2 c2(1)] c2(2,3) show ?thesis by simp
  qed
qed

text \<open>
  Claim C1, as the code has it. Let the class \<open>this\<close> extend a class \<open>p\<close> that is found.
  After the class is resolved: (1) when \<open>p\<close> has a member under \<^verbatim>\<open>static:create\<close>, the
  class has under that key a member built from the same record that belongs to the
  class; (2) when the class has no mixin, every other key of its map holds what it held
  before, and the whole map is as it was when \<open>p\<close> has no \<^verbatim>\<open>static:create\<close>: no other
  member of \<open>p\<close> is copied.
\<close>

theorem extends_takes_static_create:
  assumes wf: "wellformed s" and t: "this < length (klasses s)"
    and nf: "\<not> k_postProcessed (klasses s ! this)"
    and ext: "truthy (cd_extends (k_data (klasses s ! this)))"
    and f: "Klass_find s (js_str (cd_extends (k_data (klasses s ! this)))) False = Inr (Some p)"
    and run: "postProcess fuel this s = Some (Inr s')"
  shows "(\<forall>pc. map_of (k_items (klasses s' ! p)) ''static:create'' = Some pc \<longrightarrow>
            (\<exists>c. map_of (k_items (klasses s' ! this)) ''static:create'' = Some c
                 \<and> ci_klass c = this \<and> ci_data c = ci_data pc))
         \<and> (cd_uses (k_data (klasses s ! this)) = None \<and> k_implements (klasses s ! this) = None \<longrightarrow>
              (\<forall>key. key \<noteq> ''static:create'' \<longrightarrow>
                 map_of (k_items (klasses s' ! this)) key = map_of (k_items (klasses s ! this)) key)
              \<and> (map_of (k_items (klasses s' ! p)) ''static:create'' = None \<longrightarrow>
                   k_items (klasses s' ! this) = k_items (klasses s ! this)))"
proof -
  let ?sc = "''static:create''"
  let ?e = "js_str (cd_extends (k_data (klasses s ! this)))"
  let ?s2 = "markProcessed this s"
  let ?s0 = "setKlass this (\<lambda>k. k\<lparr>k_extends := Some p\<rparr>) ?s2"
  from nf run obtain n where n: "fuel = Suc n" by (cases fuel) auto
  from nf run [unfolded n] obtain s3 s4 where
    s3: "extendsStep (postProcess n) this ?s2 = Some (Inr s3)"
    and s4: "usesStep this s3 = Inr s4"
    and s': "(case k_implements (klasses s4 ! this) of
                None \<Rightarrow> Some (Inr s4)
              | Some impls \<Rightarrow> forEachImpl (postProcess n) this impls s4) = Some (Inr s')"
    by (rule postProcess_stages)
  note m2 = markProcessed_this [OF t]
  have f2: "Klass_find ?s2 ?e False = Inr (Some p)"
    using f Klass_find_nss [of ?s2 s] by simp
  from s3 ext f2 obtain s1 where s1: "postProcess n p ?s0 = Some (Inr s1)"
    by (auto simp: extendsStep_def m2 split: option.splits sum.splits)
  have s3': "(case map_of (k_items (klasses s1 ! p)) ?sc of
                None \<Rightarrow> Some (Inr s1)
              | Some parentCreate \<Rightarrow>
                  (case ClassItem_new s1 (ci_data parentCreate) this of
                     Inl e \<Rightarrow> Some (Inl e)
                   | Inr item \<Rightarrow>
                       Some (Inr (setKlass this
                         (\<lambda>k. k\<lparr>k_items := AList.update ?sc item (k_items k)\<rparr>) s1)))) = Some (Inr s3)"
    using s3 ext f2 s1 by (simp add: extendsStep_def m2)
  have l0: "this < length (klasses ?s0)" using t by simp
  have flag0: "k_postProcessed (klasses ?s0 ! this)"
    using t flag_markProcessed [OF t] by (simp add: nth_setKlass)
  have r1: "resolves ?s0 s1" using s1 by (rule postProcess_resolves)
  then have same1: "klasses s1 ! this = klasses ?s0 ! this"
    and l1: "length (klasses s1) = length (klasses s)"
    using l0 flag0 by (simp_all add: resolves_def)
  have i1: "k_items (klasses s1 ! this) = k_items (klasses s ! this)"
    and m1: "k_implements (klasses s1 ! this) = k_implements (klasses s ! this)"
    and d1: "k_data (klasses s1 ! this) = k_data (klasses s ! this)"
    and fl1: "k_postProcessed (klasses s1 ! this)"
    using same1 t m2 flag0 by (simp_all add: nth_setKlass)
  have p: "p < length (klasses s)" using wf f by (rule Klass_find_valid)
  have flp: "k_postProcessed (klasses s1 ! p)"
    using postProcess_flag [OF _ s1] p by simp
  have w1: "wellformed s1"
    using r1 resolvesIn_markProcessed [of this s] wf
      resolvesIn_setField [of "\<lambda>k. k\<lparr>k_extends := Some p\<rparr>" this ?s2]
    by (simp add: resolves_def resolvesIn_def keeps_def)
  have r13: "resolvesIn this s1 s3"
  proof (cases "map_of (k_items (klasses s1 ! p)) ?sc")
    case None
    with s3' show ?thesis by (simp add: resolvesIn_refl)
  next
    case (Some parentCreate)
    with s3' obtain item where n: "ClassItem_new s1 (ci_data parentCreate) this = Inr item"
      and e: "s3 = setKlass this (\<lambda>k. k\<lparr>k_items := AList.update ?sc item (k_items k)\<rparr>) s1"
      by (auto split: sum.splits)
    show ?thesis unfolding e
      by (rule resolvesIn_setItem) (use ClassItem_new_Inr [OF n] in simp)
  qed
  have r34: "resolvesIn this s3 s4" using s4 by (rule usesStep_resolvesIn)
  have r4': "resolvesIn this s4 s'" using postProcess_resolves s' by (rule implStep_resolvesIn)
  have r1': "resolvesIn this s1 s'"
    using r13 r34 r4' resolvesIn_trans by blast
  have l': "length (klasses s') = length (klasses s)"
    using resolvesIn_length [OF r1'] l1 by simp
  have w': "wellformed s'" using r1' w1 by (rule resolvesIn_wellformed)
  have parent: "klasses s' ! p = klasses s1 ! p" if "p \<noteq> this"
    using r1' that p l1 flp by (simp add: resolvesIn_def)
  have l3: "length (klasses s3) = length (klasses s)"
    using resolvesIn_length [OF r13] l1 by simp
  have A: "\<exists>c. map_of (k_items (klasses s' ! this)) ?sc = Some c
               \<and> ci_klass c = this \<and> ci_data c = ci_data pc"
    if pc: "map_of (k_items (klasses s' ! p)) ?sc = Some pc" for pc
  proof (cases "p = this")
    case True
    have "(?sc, pc) \<in> set (k_items (klasses s' ! this))"
      using pc True by (simp add: map_of_SomeD)
    from wellformed_items [OF w' _ this] t l' pc True show ?thesis by simp
  next
    case False
    from pc parent [OF False] have pc1: "map_of (k_items (klasses s1 ! p)) ?sc = Some pc" by simp
    with s3' obtain item where n: "ClassItem_new s1 (ci_data pc) this = Inr item"
      and e: "s3 = setKlass this (\<lambda>k. k\<lparr>k_items := AList.update ?sc item (k_items k)\<rparr>) s1"
      by (auto split: sum.splits)
    have e3: "map_of (k_items (klasses s3 ! this)) ?sc = Some item"
      unfolding e using t l1 by (simp add: nth_setKlass update_conv')
    have fl3: "k_postProcessed (klasses s3 ! this)"
      unfolding e using t l1 fl1 by (simp add: nth_setKlass)
    have e4: "map_of (k_items (klasses s4 ! this)) ?sc = Some item"
      and fl4: "k_postProcessed (klasses s4 ! this)"
      using usesStep_this [OF s4, of this] t l3 e3 fl3 by simp_all
    have l4: "this < length (klasses s4)"
      using resolvesIn_length [OF r34] l3 t by simp
    have "\<exists>c. map_of (k_items (klasses s' ! this)) ?sc = Some c
               \<and> ci_data c = ci_data item \<and> ci_klass c = ci_klass item"
    proof (cases "k_implements (klasses s4 ! this)")
      case None
      with s' e4 show ?thesis by simp
    next
      case (Some impls)
      with s' have "forEachImpl (postProcess n) this impls s4 = Some (Inr s')" by simp
      from forEachImpl_entry [OF postProcess_resolves this l4 fl4 e4] show ?thesis .
    qed
    with ClassItem_new_Inr [OF n] show ?thesis by auto
  qed
  have B: "(\<forall>key. key \<noteq> ?sc \<longrightarrow>
              map_of (k_items (klasses s' ! this)) key = map_of (k_items (klasses s ! this)) key)
           \<and> (map_of (k_items (klasses s' ! p)) ?sc = None \<longrightarrow>
                k_items (klasses s' ! this) = k_items (klasses s ! this))"
    if nm: "cd_uses (k_data (klasses s ! this)) = None \<and> k_implements (klasses s ! this) = None"
  proof -
    have d3: "k_data (klasses s3 ! this) = k_data (klasses s ! this)"
      using r13 t l1 d1 by (simp add: resolvesIn_def keeps_def)
    have e43: "s4 = s3" using s4 nm d3 by (simp add: usesStep_def)
    show ?thesis
    proof (cases "map_of (k_items (klasses s1 ! p)) ?sc")
      case None
      with s3' have e31: "s3 = s1" by simp
      with e43 s' m1 nm have "s' = s1" by simp
      with i1 show ?thesis by simp
    next
      case (Some parentCreate)
      with s3' obtain item where
        e: "s3 = setKlass this (\<lambda>k. k\<lparr>k_items := AList.update ?sc item (k_items k)\<rparr>) s1"
        by (auto split: sum.splits)
      have "k_implements (klasses s3 ! this) = None"
        unfolding e using t l1 m1 nm by (simp add: nth_setKlass)
      with e43 s' have e': "s' = s3" by simp
      have i': "k_items (klasses s' ! this) = AList.update ?sc item (k_items (klasses s ! this))"
        unfolding e' e using t l1 i1 by (simp add: nth_setKlass)
      have other: "map_of (k_items (klasses s' ! this)) key = map_of (k_items (klasses s ! this)) key"
        if "key \<noteq> ?sc" for key
        unfolding i' using that by (simp add: update_conv')
      have "map_of (k_items (klasses s' ! p)) ?sc \<noteq> None"
      proof (cases "p = this")
        case True
        have "map_of (k_items (klasses s' ! this)) ?sc = Some item"
          unfolding i' by (simp add: update_conv')
        with True show ?thesis by simp
      next
        case False
        with parent Some show ?thesis by simp
      qed
      with other show ?thesis by blast
    qed
  qed
  from A B show ?thesis by blast
qed

theorem extends_takes_static_create_witness:
  "Klass_find (loadedState inheritDocs) ''P'' False = Inr (Some 0)
   \<and> (\<exists>s'. postProcess 7 1 (loadedState inheritDocs) = Some (Inr s')
          \<and> map_of (k_items (klasses s' ! 0)) ''static:create'' \<noteq> None
          \<and> map_option ci_klass (map_of (k_items (klasses s' ! 1)) ''static:create'') = Some 1
          \<and> map_option ci_data (map_of (k_items (klasses s' ! 1)) ''static:create'')
              = map_option ci_data (map_of (k_items (klasses s' ! 0)) ''static:create'')
          \<and> map_of (k_items (klasses s' ! 1)) ''foo'' = None)"
proof -
  let ?s = "loadedState inheritDocs"
  have wf: "wellformed ?s" by code_simp
  have t: "1 < length (klasses ?s)" by code_simp
  have nf: "\<not> k_postProcessed (klasses ?s ! 1)" by code_simp
  have ext: "truthy (cd_extends (k_data (klasses ?s ! 1)))" by code_simp
  have e: "js_str (cd_extends (k_data (klasses ?s ! 1))) = ''P''" by code_simp
  have f: "Klass_find ?s ''P'' False = Inr (Some 0)" by code_simp
  have nm: "cd_uses (k_data (klasses ?s ! 1)) = None \<and> k_implements (klasses ?s ! 1) = None"
    by code_simp
  have foo: "map_of (k_items (klasses ?s ! 1)) ''foo'' = None" by code_simp
  have "(case postProcess 7 1 ?s of
           Some (Inr s') \<Rightarrow> map_of (k_items (klasses s' ! 0)) ''static:create'' \<noteq> None
         | _ \<Rightarrow> False)"
    by code_simp
  then obtain s' pc where run: "postProcess 7 1 ?s = Some (Inr s')"
    and pc: "map_of (k_items (klasses s' ! 0)) ''static:create'' = Some pc"
    by (auto split: option.splits sum.splits)
  note th = extends_takes_static_create [OF wf t nf ext f [folded e] run]
  from th pc obtain c where c: "map_of (k_items (klasses s' ! 1)) ''static:create'' = Some c"
    "ci_klass c = 1" "ci_data c = ci_data pc" by blast
  from th nm foo have "map_of (k_items (klasses s' ! 1)) ''foo'' = None" by simp
  with f run pc c show ?thesis by simp
qed

text \<open>
  Claim C1 as stated fails: \<^verbatim>\<open>C\<close> extends \<^verbatim>\<open>P\<close>, and the public method \<^verbatim>\<open>foo\<close> of \<^verbatim>\<open>P\<close> is
  not in the map of \<^verbatim>\<open>C\<close> after resolution; only \<^verbatim>\<open>static:create\<close> is.
\<close>

theorem extends_does_not_copy_members:
  "(case resolveDocs 7 inheritDocs of
      Some (Inr s) \<Rightarrow>
        (map (\<lambda>k. (k_fullName k, k_extends k, map (\<lambda>e. (fst e, ci_private (snd e), ci_klass (snd e))) (k_items k)))
           (take 2 (klasses s)))
        = [(''P'', None, [(''foo'', False, 0), (''static:create'', False, 0)]),
           (''C'', Some 0, [(''static:create'', False, 1)])]
    | _ \<Rightarrow> False)"
  by code_simp

section \<open>A member documented twice\<close>

text \<open>
  Claim C2, as the code has it. When a member is attached to a class that already has
  a member under the same key, a warning is recorded and the new member takes the place
  of the old one under that key; the keys of the map and their order stay.
\<close>

theorem attachItem_duplicate:
  assumes "\<not> ignoreItem (d_class data)"
    and "Klass_find s (d_class data) False = Inr (Some klass)"
    and "klass < length (klasses s)"
    and "d_name data \<noteq> []" and "d_itemtype data \<in> set [''method'', ''property'', ''event'']"
    and "ClassItem_new s data klass = Inr item"
    and "map_of (k_items (klasses s ! klass)) (ClassItem_key item) = Some first"
  shows "\<exists>s'. attachItem data s = Inr s'
           \<and> warnings s' = warnings s @ [''Duplicate item for klass; klass='' @ k_fullName (klasses s ! klass)
                                           @ '', item='' @ ClassItem_key item]
           \<and> map_of (k_items (klasses s' ! klass)) (ClassItem_key item) = Some item
           \<and> map fst (k_items (klasses s' ! klass)) = map fst (k_items (klasses s ! klass))"
proof -
  let ?w = "warn (''Duplicate item for klass; klass='' @ k_fullName (klasses s ! klass)
                  @ '', item='' @ ClassItem_key item) s"
  let ?s' = "setKlass klass (\<lambda>k. k\<lparr>k_items := AList.update (ClassItem_key item) item (k_items k)\<rparr>) ?w"
  have a: "attachItem data s = Inr ?s'"
    using assms by (simp add: attachItem_def)
  have k: "ClassItem_key item \<in> fst ` set (k_items (klasses s ! klass))"
    using map_of_SomeD [OF assms(7)] by force
  have i: "k_items (klasses ?s' ! klass) = AList.update (ClassItem_key item) item (k_items (klasses s ! klass))"
    using assms(3) by (simp add: nth_setKlass)
  have w: "warnings ?s' = warnings s @ [''Duplicate item for klass; klass='' @ k_fullName (klasses s ! klass)
                                           @ '', item='' @ ClassItem_key item]"
    by simp
  have m: "map_of (k_items (klasses ?s' ! klass)) (ClassItem_key item) = Some item"
    unfolding i by (simp add: update_conv')
  have ks: "map fst (k_items (klasses ?s' ! klass)) = map fst (k_items (klasses s ! klass))"
    unfolding i using k by (simp add: update_keys)
  show ?thesis using a w m ks by blast
qed

theorem attachItem_duplicate_witness:
  "map_of (k_items (klasses (loadedState firstFooDocs) ! 0)) ''foo'' \<noteq> None
   \<and> (\<exists>s'. attachItem secondFoo (loadedState firstFooDocs) = Inr s'
          \<and> warnings s' = [''Duplicate item for klass; klass=Foo, item=foo'']
          \<and> map_option ci_data (map_of (k_items (klasses s' ! 0)) ''foo'') = Some secondFoo
          \<and> map fst (k_items (klasses s' ! 0)) = [''foo''])"
proof -
  let ?s = "loadedState firstFooDocs"
  have 1: "\<not> ignoreItem (d_class secondFoo)" by code_simp
  have 2: "Klass_find ?s (d_class secondFoo) False = Inr (Some 0)" by code_simp
  have 3: "0 < length (klasses ?s)" by code_simp
  have 4: "d_name secondFoo \<noteq> []" by code_simp
  have 5: "d_itemtype secondFoo \<in> set [''method'', ''property'', ''event'']" by code_simp
  have "(case ClassItem_new ?s secondFoo 0 of Inr item \<Rightarrow> ClassItem_key item = ''foo'' | _ \<Rightarrow> False)"
    by code_simp
  then obtain item where 6: "ClassItem_new ?s secondFoo 0 = Inr item" and key: "ClassItem_key item = ''foo''"
    by (auto split: sum.splits)
  have "map_of (k_items (klasses ?s ! 0)) ''foo'' \<noteq> None" by code_simp
  then obtain first where 7: "map_of (k_items (klasses ?s ! 0)) (ClassItem_key item) = Some first"
    unfolding key by blast
  have w: "warnings ?s = []" by code_simp
  have f: "k_fullName (klasses ?s ! 0) = ''Foo''" by code_simp
  have k: "map fst (k_items (klasses ?s ! 0)) = [''foo'']" by code_simp
  have d: "ci_data item = secondFoo" using ClassItem_new_Inr [OF 6] by simp
  from attachItem_duplicate [OF 1 2 3 4 5 6 7] 7 show ?thesis
    unfolding key w f k by (auto simp: d)
qed

text \<open>
  Claim C2 as stated fails: after the two records of \<^verbatim>\<open>foo\<close> are attached the
  member of the class is the one built from the second record.
\<close>

theorem duplicate_member_overwritten:
  "(map (\<lambda>e. (fst e, ci_data (snd e) = secondFoo, ci_type (snd e)))
      (k_items (klasses (loadedState duplicateDocs) ! 0)),
    warnings (loadedState duplicateDocs))
   = ([(''foo'', True, ''number'')], [''Duplicate item for klass; klass=Foo, item=foo''])"
  by code_simp

section \<open>Mixins that are not found\<close>




























section \<open>A cyclic chain of extends\<close>

text \<open>
  Claim C6, as the code has it. Where every \<^verbatim>\<open>extends\<close> name finds a class, no class
  has a mixin and the constructor of \<^verbatim>\<open>ClassItem\<close> returns for the member records of the
  state (\<open>builds\<close>: it is called for the copy of \<^verbatim>\<open>static:create\<close>), the \<^verbatim>\<open>extends\<close> edges
  forming cycles or not, a call of \<^verbatim>\<open>postProcess\<close> returns without an exception, records no
  warning and leaves the class flagged: the flag stops the recursion, and a cycle is
  neither detected nor reported.
\<close>

theorem extends_cycle_not_reported:
  assumes "wellformed s" and "names_ok s" and "no_mixins s" and "builds s"
    and "this < length (klasses s)"
  shows "\<exists>s'. postProcess (Suc (unprocessed s)) this s = Some (Inr s')
              \<and> warnings s' = warnings s \<and> k_postProcessed (klasses s' ! this)"
proof -
  have c: "calm s" using assms by (simp add: calm_def)
  obtain r where r: "postProcess (Suc (unprocessed s)) this s = Some r"
    using postProcess_terminates [OF assms(1,5), of "Suc (unprocessed s)"] by auto
  from postProcess_calm [OF c assms(5) r] obtain s' where
    s': "r = Inr s'" "warnings s' = warnings s" by (auto simp: quiet_def)
  with r postProcess_flag [OF assms(5), of "Suc (unprocessed s)" s'] show ?thesis by simp
qed

theorem extends_cycle_not_reported_witness:
  "cd_extends (k_data (klasses (loadedState extendsCycleDocs) ! 0)) = Some ''B''
   \<and> cd_extends (k_data (klasses (loadedState extendsCycleDocs) ! 1)) = Some ''A''
   \<and> (\<exists>s'. postProcess 7 0 (loadedState extendsCycleDocs) = Some (Inr s')
           \<and> warnings s' = [] \<and> k_postProcessed (klasses s' ! 0))"
proof -
  let ?s = "loadedState extendsCycleDocs"
  have w: "wellformed ?s" by code_simp
  have n: "names_ok ?s" by code_simp
  have m: "no_mixins ?s" by code_simp
  have c: "builds ?s" by code_simp
  have l: "0 < length (klasses ?s)" by code_simp
  have u: "Suc (unprocessed ?s) = 7" by code_simp
  have e: "warnings ?s = []" by code_simp
  have a: "cd_extends (k_data (klasses ?s ! 0)) = Some ''B''" by code_simp
  have b: "cd_extends (k_data (klasses ?s ! 1)) = Some ''A''" by code_simp
  from extends_cycle_not_reported [OF w n m c l] a b show ?thesis unfolding u e by simp
qed

text \<open>
  Claim C6 as stated fails: for \<^verbatim>\<open>A\<close> extending \<^verbatim>\<open>B\<close> and \<^verbatim>\<open>B\<close> extending \<^verbatim>\<open>A\<close> the run ends
  without an exception and without a warning, both classes resolved and linked.
\<close>

theorem extends_cycle_resolved:
  "(case resolveDocs 7 extendsCycleDocs of
      Some (Inr s) \<Rightarrow>
        (map (\<lambda>k. (k_fullName k, k_postProcessed k, k_extends k)) (take 2 (klasses s)), warnings s)
        = ([(''A'', True, Some 1), (''B'', True, Some 0)], [])
    | _ \<Rightarrow> False)"
  by code_simp

section \<open>Resolving a class twice\<close>

text \<open>
  Claim C7. When a call of \<^verbatim>\<open>postProcess\<close> on a class has returned, a second call on
  the class returns at once and leaves the state as the first call left it: the member
  map, the \<^verbatim>\<open>extends\<close> link and the implements list of the class, and everything else.
\<close>

theorem postProcess_idempotent:
  assumes "this < length (klasses s)" and "postProcess fuel this s = Some (Inr s')"
  shows "postProcess (Suc fuel') this s' = Some (Inr s')"
  using postProcess_flag [OF assms] by simp

theorem postProcess_idempotent_witness:
  "1 < length (klasses (loadedState inheritDocs))
   \<and> (case postProcess 7 1 (loadedState inheritDocs) of
         Some (Inr s') \<Rightarrow> postProcess 1 1 s' = Some (Inr s')
       | _ \<Rightarrow> False)"
proof -
  have l: "1 < length (klasses (loadedState inheritDocs))" by code_simp
  have "(case postProcess 7 1 (loadedState inheritDocs) of Some (Inr s') \<Rightarrow> True | _ \<Rightarrow> False)"
    by code_simp
  then obtain s' where e: "postProcess 7 1 (loadedState inheritDocs) = Some (Inr s')"
    by (auto split: option.splits sum.splits)
  from postProcess_idempotent [OF l e, of 0] l e show ?thesis by simp
qed

section \<open>Relative names\<close>

lemma stripParts_drop: "\<exists>k. stripParts ps name = drop k name"
proof (induction ps arbitrary: name)
  case Nil
  have "stripParts [] name = drop 0 name" by simp
  then show ?case by blast
next
  case (Cons p ps)
  show ?case
  proof (cases "CHR ''$'' \<notin> set p \<and> prefix (p @ ''.'') name")
    case True
    from Cons [of "drop (length p + 1) name"] obtain k where
      "stripParts ps (drop (length p + 1) name) = drop k (drop (length p + 1) name)" by blast
    with True have "stripParts (p # ps) name = drop (k + (length p + 1)) name"
      by (simp add: add.commute)
    then show ?thesis by blast
  next
    case False
    then have "stripParts (p # ps) name = drop 0 name" by auto
    then show ?thesis by blast
  qed
qed

lemma stripParts_last:
  assumes "stripParts ps name \<noteq> []"
  shows "last (stripParts ps name) = last name"
proof -
  obtain k where k: "stripParts ps name = drop k name" using stripParts_drop by blast
  with assms have "k < length name" by auto
  then show ?thesis unfolding k by (rule last_drop)
qed

lemma stripParts_no_dot: "CHR ''.'' \<notin> set name \<Longrightarrow> stripParts ps name = name"
  by (cases ps) (auto simp: prefix_def)

lemma relative_names_absent:
  assumes "stripParts ps name \<in> set BUILT_IN"
  shows "getProp RELATIVE_NAMES name = Absent"
proof -
  from assms have ne: "stripParts ps name \<noteq> []" by (auto simp: BUILT_IN_def)
  from assms have "last (stripParts ps name) \<in> {CHR ''n'', CHR ''g'', CHR ''y'', CHR ''t''}"
    by (auto simp: BUILT_IN_def)
  then have "last name \<noteq> CHR ''e''"
    using stripParts_last [OF ne] by auto
  then have own: "map_of RELATIVE_NAMES name = None" by (auto simp: RELATIVE_NAMES_def)
  have "name \<notin> set OBJECT_PROTOTYPE"
  proof
    assume o: "name \<in> set OBJECT_PROTOTYPE"
    then have "CHR ''.'' \<notin> set name" by (auto simp: OBJECT_PROTOTYPE_def)
    then have "stripParts ps name = name" by (rule stripParts_no_dot)
    with assms have "name \<in> set BUILT_IN" by simp
    with o show False by (auto simp: OBJECT_PROTOTYPE_def BUILT_IN_def)
  qed
  with own show ?thesis by (simp add: getProp_def)
qed

lemma stripParts_chain:
  "k \<le> length parts \<Longrightarrow> \<forall>p\<in>set (take k parts). CHR ''$'' \<notin> set p
   \<Longrightarrow> (k < length parts \<longrightarrow> CHR ''$'' \<in> set (parts ! k) \<or> \<not> prefix (parts ! k @ ''.'') r)
   \<Longrightarrow> stripParts parts (concat (map (\<lambda>p. p @ ''.'') (take k parts)) @ r) = r"
proof (induction parts arbitrary: k)
  case Nil
  then show ?case by simp
next
  case (Cons p ps)
  show ?case
  proof (cases k)
    case 0
    with Cons.prems show ?thesis by auto
  next
    case (Suc n)
    with Cons.prems have "stripParts ps (concat (map (\<lambda>p. p @ ''.'') (take n ps)) @ r) = r"
      by (intro Cons.IH) simp_all
    with Suc Cons.prems(2) show ?thesis by simp
  qed
qed

text \<open>
  Claim C9. (1) With no class found under a prefix of \<^verbatim>\<open>Ember.Foo.Bar\<close>, the name
  \<^verbatim>\<open>Ember.Foo\<close> becomes \<^verbatim>\<open>Foo\<close>. (2) Whenever the name that the removal of the prefix
  leaves is one of \<^verbatim>\<open>Function\<close>, \<^verbatim>\<open>String\<close>, \<^verbatim>\<open>Array\<close>, \<^verbatim>\<open>Object\<close>, the name is returned
  as it was before the removal. (3) For a base whose segments have no syntax character
  of a pattern but the dollar, what is removed is the longest chain of leading segments
  of the base, each with its dot, that the name starts with and that have no dollar.
\<close>

theorem relativeName_strips_prefix:
  "(lookupName s ''Ember.Foo'' (js_split CHR ''.'' ''Ember.Foo.Bar'') = Inr ''Ember.Foo''
      \<longrightarrow> relativeName s ''Ember.Foo'' ''Ember.Foo.Bar'' = Inr ''Foo'')
   \<and> (lookupName s name (js_split CHR ''.'' base) = Inr name1
        \<and> relative (js_split CHR ''.'' base) name1 = Inr r \<and> r \<in> set BUILT_IN
      \<longrightarrow> relativeName s name base = Inr name1)
   \<and> (list_all metaFree parts \<and> k \<le> length parts
        \<and> (\<forall>p\<in>set (take k parts). CHR ''$'' \<notin> set p)
        \<and> (k < length parts \<longrightarrow> CHR ''$'' \<in> set (parts ! k) \<or> \<not> prefix (parts ! k @ ''.'') rest)
      \<longrightarrow> relative parts (concat (map (\<lambda>p. p @ ''.'') (take k parts)) @ rest) = Inr rest)"
proof (intro conjI impI)
  assume "lookupName s ''Ember.Foo'' (js_split CHR ''.'' ''Ember.Foo.Bar'') = Inr ''Ember.Foo''"
  then show "relativeName s ''Ember.Foo'' ''Ember.Foo.Bar'' = Inr ''Foo''"
    by (simp add: relativeName_def Let_def getProp_def RELATIVE_NAMES_def OBJECT_PROTOTYPE_def
        BUILT_IN_def relative_def metaFree_def)
next
  assume b: "lookupName s name (js_split CHR ''.'' base) = Inr name1
             \<and> relative (js_split CHR ''.'' base) name1 = Inr r \<and> r \<in> set BUILT_IN"
  then have "stripParts (js_split CHR ''.'' base) name1 \<in> set BUILT_IN"
    by (auto simp: relative_def split: if_splits)
  from relative_names_absent [OF this] b
  show "relativeName s name base = Inr name1"
    by (simp add: relativeName_def Let_def)
next
  assume c: "list_all metaFree parts \<and> k \<le> length parts
        \<and> (\<forall>p\<in>set (take k parts). CHR ''$'' \<notin> set p)
        \<and> (k < length parts \<longrightarrow> CHR ''$'' \<in> set (parts ! k) \<or> \<not> prefix (parts ! k @ ''.'') rest)"
  then have "stripParts parts (concat (map (\<lambda>p. p @ ''.'') (take k parts)) @ rest) = rest"
    using stripParts_chain [of k parts rest] by blast
  with c show "relative parts (concat (map (\<lambda>p. p @ ''.'') (take k parts)) @ rest) = Inr rest"
    by (simp add: relative_def)
qed

theorem relativeName_strips_prefix_witness:
  "lookupName init ''Ember.Foo'' (js_split CHR ''.'' ''Ember.Foo.Bar'') = Inr ''Ember.Foo''
   \<and> relativeName init ''Ember.Foo'' ''Ember.Foo.Bar'' = Inr ''Foo''
   \<and> relative (js_split CHR ''.'' ''Ember.Foo.Bar'') ''Ember.String'' = Inr ''String''
   \<and> relativeName init ''Ember.String'' ''Ember.Foo.Bar'' = Inr ''Ember.String''
   \<and> relative [''Ember'', ''Foo'', ''Bar''] ''Ember.Foo.Baz'' = Inr ''Baz''
   \<and> relative [''Ember'', ''$''] ''Ember.$.ajax'' = Inr ''$.ajax''"
proof -
  have a: "lookupName init ''Ember.Foo'' (js_split CHR ''.'' ''Ember.Foo.Bar'') = Inr ''Ember.Foo''"
    by code_simp
  have b: "lookupName init ''Ember.String'' (js_split CHR ''.'' ''Ember.Foo.Bar'') = Inr ''Ember.String''
           \<and> relative (js_split CHR ''.'' ''Ember.Foo.Bar'') ''Ember.String'' = Inr ''String''
           \<and> ''String'' \<in> set BUILT_IN"
    by code_simp
  have d: "list_all metaFree [''Ember'', ''Foo'', ''Bar''] \<and> (2::nat) \<le> length [''Ember'', ''Foo'', ''Bar'']
           \<and> (\<forall>p\<in>set (take 2 [''Ember'', ''Foo'', ''Bar'']). CHR ''$'' \<notin> set p)
           \<and> (2 < length [''Ember'', ''Foo'', ''Bar'']
               \<longrightarrow> CHR ''$'' \<in> set ([''Ember'', ''Foo'', ''Bar''] ! 2)
                   \<or> \<not> prefix ([''Ember'', ''Foo'', ''Bar''] ! 2 @ ''.'') ''Baz'')"
    by (simp add: metaFree_def)
  have e: "concat (map (\<lambda>p. p @ ''.'') (take 2 [''Ember'', ''Foo'', ''Bar''])) @ ''Baz'' = ''Ember.Foo.Baz''"
    by simp
  have f: "list_all metaFree [''Ember'', ''$''] \<and> (1::nat) \<le> length [''Ember'', ''$'']
           \<and> (\<forall>p\<in>set (take 1 [''Ember'', ''$'']). CHR ''$'' \<notin> set p)
           \<and> (1 < length [''Ember'', ''$'']
               \<longrightarrow> CHR ''$'' \<in> set ([''Ember'', ''$''] ! 1)
                   \<or> \<not> prefix ([''Ember'', ''$''] ! 1 @ ''.'') ''$.ajax'')"
    by (simp add: metaFree_def)
  have g: "concat (map (\<lambda>p. p @ ''.'') (take 1 [''Ember'', ''$''])) @ ''$.ajax'' = ''Ember.$.ajax''"
    by simp
  from relativeName_strips_prefix [where s = init] a
  have 1: "relativeName init ''Ember.Foo'' ''Ember.Foo.Bar'' = Inr ''Foo''" by blast
  from relativeName_strips_prefix [where s = init and name = "''Ember.String''"
      and base = "''Ember.Foo.Bar''" and ?name1.0 = "''Ember.String''" and r = "''String''"] b
  have 2: "relativeName init ''Ember.String'' ''Ember.Foo.Bar'' = Inr ''Ember.String''" by blast
  from relativeName_strips_prefix [where parts = "[''Ember'', ''Foo'', ''Bar'']" and k = 2
      and rest = "''Baz''"] d
  have 3: "relative [''Ember'', ''Foo'', ''Bar''] ''Ember.Foo.Baz'' = Inr ''Baz''"
    unfolding e by blast
  from relativeName_strips_prefix [where parts = "[''Ember'', ''$'']" and k = 1
      and rest = "''$.ajax''"] f
  have 4: "relative [''Ember'', ''$''] ''Ember.$.ajax'' = Inr ''$.ajax''"
    unfolding g by blast
  from a 1 b 2 3 4 show ?thesis by blast
qed

section \<open>Termination of resolution\<close>




end
